theory Spec2Isabelle
  imports Main "HOL-Library.Word"
begin

unbundle bit_operations_syntax

section \<open>Python values and primitives used by \<open>matrix8x8.py\<close>\<close>

text \<open>
  Python integers are unbounded and are modelled as \<open>int\<close>; \<open>&\<close>, \<open>|\<close>, \<open>^\<close> and \<open>~\<close>
  are \<open>AND\<close>, \<open>OR\<close>, \<open>XOR\<close> and \<open>NOT\<close> on \<open>int\<close> (two's complement on both sides).
  A \<open>bytearray\<close>, a \<open>bytes\<close> object and the tuple \<open>row_addr\<close> are lists of \<open>int\<close>.
  The exceptions the driver's own statements can raise are values of \<open>error\<close>.
\<close>

datatype error = IndexError | ValueError

text \<open>\<open>a >> n\<close> and \<open>a << n\<close>: a negative shift count raises ValueError.\<close>

definition py_rshift :: "int \<Rightarrow> int \<Rightarrow> error + int" where
  "py_rshift a n = (if n < 0 then Inl ValueError else Inr (drop_bit (nat n) a))"

definition py_lshift :: "int \<Rightarrow> int \<Rightarrow> error + int" where
  "py_lshift a n = (if n < 0 then Inl ValueError else Inr (push_bit (nat n) a))"

text \<open>
  \<open>xs[i]\<close> on a sequence: indices \<open>-len .. len - 1\<close> are accepted, a negative one
  counts from the end, anything else raises IndexError.
\<close>

definition getitem :: "int list \<Rightarrow> int \<Rightarrow> error + int" where
  "getitem xs i =
     (let n = int (length xs); j = (if i < 0 then i + n else i)
      in if 0 \<le> j \<and> j < n then Inr (xs ! nat j) else Inl IndexError)"

text \<open>
  \<open>xs[i] = v\<close> on a \<open>bytearray\<close>: the index is checked as in \<open>getitem\<close>, and a value
  outside \<open>range(256)\<close> raises ValueError (CPython; MicroPython stores the low
  byte instead, so the theorems below keep stored values inside \<open>range(256)\<close>, where
  the two agree).
\<close>

definition setitem :: "int list \<Rightarrow> int \<Rightarrow> int \<Rightarrow> error + int list" where
  "setitem xs i v =
     (let n = int (length xs); j = (if i < 0 then i + n else i)
      in if \<not> (0 \<le> j \<and> j < n) then Inl IndexError
         else if \<not> (0 \<le> v \<and> v < 256) then Inl ValueError
         else Inr (xs[nat j := v]))"

text \<open>\<open>bytearray(iterable)\<close> and \<open>bytes(iterable)\<close>: every item must be in \<open>range(256)\<close>.\<close>

definition to_bytes :: "int list \<Rightarrow> error + int list" where
  "to_bytes xs = (if \<forall>v \<in> set xs. 0 \<le> v \<and> v < 256 then Inr xs else Inl ValueError)"

section \<open>The bit transform\<close>

text \<open>
  \<^verbatim>\<open>
  def rotate_right(byte):
      byte &= 0xFF
      bit = byte & 0x01
      byte >>= 1
      if bit:
          byte |= 0x80
      return byte
  \<close>
\<close>

definition rotate_right :: "int \<Rightarrow> int" where
  "rotate_right byte =
     (let byte = byte AND 0xFF;
          bit = byte AND 0x01;
          byte = drop_bit 1 byte
      in if bit \<noteq> 0 then byte OR 0x80 else byte)"

section \<open>The driver object\<close>

text \<open>
  What is handed to \<open>i2c.send\<close>: a single integer (a command) or a buffer.
  The bus is outside the repository; the model records every call
  \<open>i2c.send(data, addr)\<close>, in order, in the field \<open>i2c\<close>.
\<close>

datatype payload = Num int | Buf "int list"

text \<open>
  The attributes of a \<open>Matrix8x8\<close> instance (\<open>blinking\<close> is \<open>self._blinking\<close>).
\<close>

record matrix =
  blinking :: int
  addr :: int
  buf :: "int list"
  is_on :: bool
  i2c :: "(payload \<times> int) list"

text \<open>
  A method either returns, with the object in a new state, or raises, and the object
  stays as the statements before the raise left it: \<open>Inl (e, self)\<close>.
\<close>

type_synonym outcome = "(error \<times> matrix) + matrix"

text \<open>An expression raising inside a method leaves the object as it is.\<close>

definition raise_in :: "matrix \<Rightarrow> error + 'a \<Rightarrow> ('a \<Rightarrow> outcome) \<Rightarrow> outcome" where
  "raise_in self r k = (case r of Inl e \<Rightarrow> Inl (e, self) | Inr v \<Rightarrow> k v)"

text \<open>Two statements in sequence: the second runs only if the first returned.\<close>

definition then_do :: "outcome \<Rightarrow> (matrix \<Rightarrow> outcome) \<Rightarrow> outcome" where
  "then_do r k = (case r of Inl x \<Rightarrow> Inl x | Inr self \<Rightarrow> k self)"

text \<open>The class attribute \<open>row_addr\<close>: the register address of each row.\<close>

definition row_addr :: "int list" where
  "row_addr = [0x00, 0x02, 0x04, 0x06, 0x08, 0x0A, 0x0C, 0x0E]"

text \<open>
  \<open>range(8)\<close>, the rows every loop of the driver runs over. The local \<open>mask\<close> of the
  source is written \<open>msk\<close> below: \<open>mask\<close> is a constant of the word library.
\<close>

definition range8 :: "int list" where
  "range8 = [0, 1, 2, 3, 4, 5, 6, 7]"

text \<open>\<open>_send\<close>: \<open>self.i2c.send(data, self.addr)\<close>\<close>

definition send :: "payload \<Rightarrow> matrix \<Rightarrow> outcome" where
  "send data self = Inr (self\<lparr>i2c := i2c self @ [(data, addr self)]\<rparr>)"

text \<open>
  \<^verbatim>\<open>
  def _send_row(self, row):
      data = bytes((self.row_addr[row], rotate_right(self.buf[row])))
      self._send(data)
  \<close>
\<close>

definition send_row :: "int \<Rightarrow> matrix \<Rightarrow> outcome" where
  "send_row row self =
     raise_in self (getitem row_addr row) (\<lambda>a.
     raise_in self (getitem (buf self) row) (\<lambda>b.
     raise_in self (to_bytes [a, rotate_right b]) (\<lambda>data.
     send (Buf data) self)))"

text \<open>
  \<^verbatim>\<open>
  def _send_buf(self):
      data = bytearray(16)
      i = 1
      for byte in self.buf:
          data[i] = rotate_right(byte)
          i += 2
      self._send(data)
  \<close>
  The loop over \<open>self.buf\<close>, with the local \<open>data\<close> and \<open>i\<close> as arguments:
\<close>

fun send_buf_loop :: "int list \<Rightarrow> int \<Rightarrow> int list \<Rightarrow> error + int list" where
  "send_buf_loop [] i data = Inr data"
| "send_buf_loop (byte # rest) i data =
     (case setitem data i (rotate_right byte) of
        Inl e \<Rightarrow> Inl e
      | Inr data' \<Rightarrow> send_buf_loop rest (i + 2) data')"

definition send_buf :: "matrix \<Rightarrow> outcome" where
  "send_buf self =
     raise_in self (send_buf_loop (buf self) 1 (replicate 16 0)) (\<lambda>data.
     send (Buf data) self)"

text \<open>
  An augmented assignment \<open>self.buf[row] op= rhs\<close>: the old item is read first, then
  the right-hand side is evaluated, then the result is stored.
\<close>

definition aug_assign ::
  "(int \<Rightarrow> int \<Rightarrow> int) \<Rightarrow> int \<Rightarrow> error + int \<Rightarrow> matrix \<Rightarrow> outcome" where
  "aug_assign f row rhs self =
     raise_in self (getitem (buf self) row) (\<lambda>old.
     raise_in self rhs (\<lambda>v.
     raise_in self (setitem (buf self) row (f old v)) (\<lambda>buf'.
     Inr (self\<lparr>buf := buf'\<rparr>))))"

text \<open>
  \<^verbatim>\<open>
  def _clear_column(self, column):
      mask = 0x80 >> column
      for row in range(8):
          if self.buf[row] & mask:
              self.buf[row] ^= mask
  \<close>
\<close>

fun clear_column_rows :: "int \<Rightarrow> int list \<Rightarrow> matrix \<Rightarrow> outcome" where
  "clear_column_rows msk [] self = Inr self"
| "clear_column_rows msk (row # rows) self =
     raise_in self (getitem (buf self) row) (\<lambda>b.
     then_do (if b AND msk \<noteq> 0 then aug_assign (XOR) row (Inr msk) self else Inr self)
       (clear_column_rows msk rows))"

definition priv_clear_column :: "int \<Rightarrow> matrix \<Rightarrow> outcome" where
  "priv_clear_column column self =
     raise_in self (py_rshift 0x80 column) (\<lambda>msk.
     clear_column_rows msk range8 self)"

text \<open>
  \<^verbatim>\<open>
  def _set_column(self, column, byte):
      self._clear_column(column)
      if byte == 0:
          return
      mask = 0x80
      for row in range(8):
          shift = column - row
          if shift >= 0:
              self.buf[row] |= (byte & mask) >> shift
          else:
              self.buf[row] |= (byte & mask) << abs(shift)
          mask >>= 1
  \<close>
\<close>

fun set_column_rows :: "int \<Rightarrow> int \<Rightarrow> int \<Rightarrow> int list \<Rightarrow> matrix \<Rightarrow> outcome" where
  "set_column_rows column byte msk [] self = Inr self"
| "set_column_rows column byte msk (row # rows) self =
     (let shift = column - row in
      then_do
        (if shift \<ge> 0 then aug_assign (OR) row (py_rshift (byte AND msk) shift) self
         else aug_assign (OR) row (py_lshift (byte AND msk) \<bar>shift\<bar>) self)
        (set_column_rows column byte (drop_bit 1 msk) rows))"

definition priv_set_column :: "int \<Rightarrow> int \<Rightarrow> matrix \<Rightarrow> outcome" where
  "priv_set_column column byte self =
     then_do (priv_clear_column column self) (\<lambda>self.
       if byte = 0 then Inr self
       else set_column_rows column byte 0x80 range8 self)"

text \<open>
  \<^verbatim>\<open>
  def on(self):
      self.is_on = True
      self._send(0x81 | self._blinking << 1)

  def off(self):
      self.is_on = False
      self._send(0x80)

  def set_brightness(self, value):
      self._send(0xE0 | value)

  def set_blinking(self, mode):
      self._blinking = mode
      if self.is_on:
          self.on()
  \<close>
  \<open><<\<close> binds tighter than \<open>|\<close>.
\<close>

definition on :: "matrix \<Rightarrow> outcome" where
  "on self =
     (let self = self\<lparr>is_on := True\<rparr>
      in send (Num (0x81 OR push_bit 1 (blinking self))) self)"

definition off :: "matrix \<Rightarrow> outcome" where
  "off self =
     (let self = self\<lparr>is_on := False\<rparr>
      in send (Num 0x80) self)"

definition set_brightness :: "int \<Rightarrow> matrix \<Rightarrow> outcome" where
  "set_brightness v self = send (Num (0xE0 OR v)) self"

definition set_blinking :: "int \<Rightarrow> matrix \<Rightarrow> outcome" where
  "set_blinking mode self =
     (let self = self\<lparr>blinking := mode\<rparr>
      in if is_on self then on self else Inr self)"

text \<open>
  \<^verbatim>\<open>
  def set(self, bitmap):
      self.buf = bytearray(bitmap)
      self._send_buf()

  def clear(self):
      for i in range(8):
          self.buf[i] = 0
      self._send_buf()
  \<close>
  (\<open>set\<close> is \<open>set_bitmap\<close> here: \<open>set\<close> is HOL's list-to-set function.)
\<close>

definition set_bitmap :: "int list \<Rightarrow> matrix \<Rightarrow> outcome" where
  "set_bitmap bitmap self =
     raise_in self (to_bytes bitmap) (\<lambda>bs.
     send_buf (self\<lparr>buf := bs\<rparr>))"

fun clear_rows :: "int list \<Rightarrow> matrix \<Rightarrow> outcome" where
  "clear_rows [] self = Inr self"
| "clear_rows (i # rest) self =
     raise_in self (setitem (buf self) i 0) (\<lambda>buf'.
     clear_rows rest (self\<lparr>buf := buf'\<rparr>))"

definition clear :: "matrix \<Rightarrow> outcome" where
  "clear self = then_do (clear_rows range8 self) send_buf"

text \<open>
  \<^verbatim>\<open>
  def set_row(self, row, byte):
      self.buf[row] = byte
      self._send_row(row)

  def clear_row(self, row):
      self.set_row(row, 0)

  def set_column(self, column, byte):
      self._set_column(column, byte)
      self._send_buf()

  def clear_column(self, column):
      self._clear_column(column)
      self._send_buf()

  def set_pixel(self, row, column):
      self.buf[row] |= (0x80 >> column)
      self._send_row(row)

  def clear_pixel(self, row, column):
      self.buf[row] &= ~(0x80 >> column)
      self._send_row(row)
  \<close>
\<close>

definition set_row :: "int \<Rightarrow> int \<Rightarrow> matrix \<Rightarrow> outcome" where
  "set_row row byte self =
     raise_in self (setitem (buf self) row byte) (\<lambda>buf'.
     send_row row (self\<lparr>buf := buf'\<rparr>))"

definition clear_row :: "int \<Rightarrow> matrix \<Rightarrow> outcome" where
  "clear_row row self = set_row row 0 self"

definition set_column :: "int \<Rightarrow> int \<Rightarrow> matrix \<Rightarrow> outcome" where
  "set_column column byte self = then_do (priv_set_column column byte self) send_buf"

definition clear_column :: "int \<Rightarrow> matrix \<Rightarrow> outcome" where
  "clear_column column self = then_do (priv_clear_column column self) send_buf"

definition set_pixel :: "int \<Rightarrow> int \<Rightarrow> matrix \<Rightarrow> outcome" where
  "set_pixel row column self =
     then_do (aug_assign (OR) row (py_rshift 0x80 column) self) (send_row row)"

definition clear_pixel :: "int \<Rightarrow> int \<Rightarrow> matrix \<Rightarrow> outcome" where
  "clear_pixel row column self =
     then_do (aug_assign (AND) row (map_sum id NOT (py_rshift 0x80 column)) self)
       (send_row row)"

text \<open>
  \<^verbatim>\<open>
  def __init__(self, i2c_bus=1, addr=0x70, brightness=15, i2c=None):
      self._blinking = 0
      self.addr = addr
      self.buf = bytearray(8)
      ...
      self._send(0x21)
      self.set_brightness(brightness)
      self.clear()
      self.on()
  \<close>
  The bus starts with nothing sent. \<open>is_on\<close> is first assigned by the \<open>on()\<close> that ends
  the constructor and is read by no statement before that; the record needs a value
  for it until then.
\<close>

definition init :: "int \<Rightarrow> int \<Rightarrow> outcome" where
  "init a brightness =
     (let self = \<lparr>blinking = 0, addr = a, buf = replicate 8 0, is_on = False, i2c = []\<rparr>
      in then_do (send (Num 0x21) self) (\<lambda>self.
         then_do (set_brightness brightness self) (\<lambda>self.
         then_do (clear self) on)))"

text \<open>The public operations as data, and a call of one of them.\<close>

datatype op =
    On | Off | SetBrightness int | SetBlinking int
  | Set "int list" | Clear
  | SetRow int int | ClearRow int
  | SetColumn int int | ClearColumn int
  | SetPixel int int | ClearPixel int int

fun call :: "op \<Rightarrow> matrix \<Rightarrow> outcome" where
  "call On self = on self"
| "call Off self = off self"
| "call (SetBrightness v) self = set_brightness v self"
| "call (SetBlinking m) self = set_blinking m self"
| "call (Set bitmap) self = set_bitmap bitmap self"
| "call Clear self = clear self"
| "call (SetRow r b) self = set_row r b self"
| "call (ClearRow r) self = clear_row r self"
| "call (SetColumn c b) self = set_column c b self"
| "call (ClearColumn c) self = clear_column c self"
| "call (SetPixel r c) self = set_pixel r c self"
| "call (ClearPixel r c) self = clear_pixel r c self"

text \<open>
  A caller running operations one after another; an exception that is not caught ends
  the run.
\<close>

fun run :: "op list \<Rightarrow> matrix \<Rightarrow> outcome" where
  "run [] self = Inr self"
| "run (x # xs) self = then_do (call x self) (run xs)"

section \<open>Vocabulary of the properties\<close>

text \<open>A byte: an integer in \<open>range(256)\<close>, what a \<open>bytearray\<close> holds.\<close>

definition is_byte :: "int \<Rightarrow> bool" where
  "is_byte b \<longleftrightarrow> 0 \<le> b \<and> b < 256"

text \<open>The framebuffer as the constructor makes it: eight items, each a byte.\<close>

definition framebuffer_ok :: "matrix \<Rightarrow> bool" where
  "framebuffer_ok self \<longleftrightarrow> length (buf self) = 8 \<and> list_all is_byte (buf self)"

text \<open>
  Reading a column back, in the words of the round-trip property: a byte rebuilt from
  bit \<open>0x80 >> c\<close> of rows 0..7, row \<open>k\<close> giving bit position \<open>k\<close> counted from the
  most significant bit, that is \<open>0x80 >> k\<close>.
\<close>

definition column_byte :: "nat \<Rightarrow> int list \<Rightarrow> int" where
  "column_byte c bs =
     (\<Sum>k\<leftarrow>[0..<8]. if bs ! k AND drop_bit c 0x80 \<noteq> 0 then drop_bit k 0x80 else 0)"

text \<open>
  A method that touches nothing but the items of the framebuffer, whose length stays.
\<close>

definition buf_only :: "matrix \<Rightarrow> matrix \<Rightarrow> bool" where
  "buf_only s s' \<longleftrightarrow> length (buf s') = length (buf s) \<and> s' = s\<lparr>buf := buf s'\<rparr>"

text \<open>The operations that end in a full-buffer push (\<open>_send_buf\<close>).\<close>

fun is_full_push :: "op \<Rightarrow> bool" where
  "is_full_push (Set bitmap) = True"
| "is_full_push Clear = True"
| "is_full_push (SetColumn c b) = True"
| "is_full_push (ClearColumn c) = True"
| "is_full_push x = False"

text \<open>The operations that can send the display-on command: \<open>on\<close> and \<open>set_blinking\<close>.\<close>

fun on_or_blink :: "op \<Rightarrow> bool" where
  "on_or_blink On = True"
| "on_or_blink (SetBlinking m) = True"
| "on_or_blink x = False"

text \<open>
  A drawing method that returned: the framebuffer has \<open>n\<close> items, one buffer went to the
  bus, and nothing else of the object changed.
\<close>

definition redrawn :: "nat \<Rightarrow> matrix \<Rightarrow> matrix \<Rightarrow> bool" where
  "redrawn n s s' \<longleftrightarrow>
     (\<exists>bs d. length bs = n \<and> s' = s\<lparr>buf := bs, i2c := i2c s @ [(Buf d, addr s)]\<rparr>)"

text \<open>An instance right after \<open>Matrix8x8()\<close> with the default arguments, the bus log emptied.\<close>

definition fresh :: matrix where
  "fresh = \<lparr>blinking = 0, addr = 0x70, buf = [0, 0, 0, 0, 0, 0, 0, 0], is_on = True, i2c = []\<rparr>"

section \<open>Properties of the bit transform\<close>

lemma is_byte_take_bit: "is_byte b \<longleftrightarrow> take_bit 8 b = b"
  by (simp add: is_byte_def take_bit_int_eq_self_iff)

lemma is_byte_bit: "is_byte b \<Longrightarrow> bit b n \<Longrightarrow> n < 8"
  by (metis is_byte_take_bit bit_take_bit_iff)

lemma rotate_right_alt:
  "rotate_right b = drop_bit 1 (take_bit 8 b) OR push_bit 7 (take_bit 1 b)"
proof -
  have a: "b AND 255 = take_bit 8 b"
    by (simp add: take_bit_eq_mask mask_eq_exp_minus_1)
  have c: "take_bit 8 b AND 1 = take_bit 1 b"
    by (simp add: and_one_eq mod_mod_cancel take_bit_eq_mod)
  show ?thesis
  proof (cases "odd b")
    case True
    then show ?thesis by (simp add: rotate_right_def a c Let_def)
  next
    case False
    then show ?thesis by (simp add: rotate_right_def a c Let_def)
  qed
qed

lemma bit_rotate_right:
  "bit (rotate_right b) n \<longleftrightarrow> (n < 7 \<and> bit b (n + 1)) \<or> (n = 7 \<and> bit b 0)"
  by (auto simp add: rotate_right_alt bit_simps bit_0)

lemma is_byte_rotate_right: "is_byte (rotate_right b)"
  unfolding is_byte_take_bit
  by (rule bit_eqI) (auto simp add: bit_simps bit_rotate_right)

lemma bit_rotate_right_mod:
  assumes "is_byte b"
  shows "bit (rotate_right b) n \<longleftrightarrow> n < 8 \<and> bit b ((n + 1) mod 8)"
proof (cases "n < 7")
  case True
  then show ?thesis by (simp add: bit_rotate_right)
next
  case False
  show ?thesis
  proof (cases "n = 7")
    case True
    then show ?thesis by (simp add: bit_rotate_right)
  next
    case False
    with \<open>\<not> n < 7\<close> have "8 \<le> n" by simp
    then show ?thesis by (simp add: bit_rotate_right)
  qed
qed

lemma bit_funpow_rotate_right:
  "is_byte b \<Longrightarrow> bit ((rotate_right ^^ k) b) n \<longleftrightarrow> n < 8 \<and> bit b ((n + k) mod 8)"
proof (induction k arbitrary: n)
  case 0
  then show ?case by (auto dest: is_byte_bit)
next
  case (Suc k)
  have "is_byte ((rotate_right ^^ k) b)"
    by (cases k) (simp_all add: Suc.prems is_byte_rotate_right)
  then have "bit ((rotate_right ^^ Suc k) b) n \<longleftrightarrow>
      n < 8 \<and> bit ((rotate_right ^^ k) b) ((n + 1) mod 8)"
    by (simp add: bit_rotate_right_mod)
  also have "\<dots> \<longleftrightarrow> n < 8 \<and> bit b (((n + 1) mod 8 + k) mod 8)"
    using Suc.IH [OF Suc.prems] by simp
  also have "((n + 1) mod 8 + k) mod 8 = (n + Suc k) mod 8"
    by (simp add: mod_add_left_eq)
  finally show ?case .
qed

lemma funpow8_rotate_right: "is_byte b \<Longrightarrow> (rotate_right ^^ 8) b = b"
  by (rule bit_eqI) (auto simp add: bit_funpow_rotate_right dest: is_byte_bit)

lemma rotate_right_inj:
  assumes "is_byte a" "is_byte b" "rotate_right a = rotate_right b"
  shows "a = b"
proof -
  have "(rotate_right ^^ 8) a = (rotate_right ^^ 7) (rotate_right a)"
    by (simp add: funpow_swap1 numeral_eq_Suc)
  also have "\<dots> = (rotate_right ^^ 8) b"
    by (simp add: assms(3) funpow_swap1 numeral_eq_Suc)
  finally show ?thesis using assms(1,2) by (simp add: funpow8_rotate_right)
qed

text \<open>
  C6. \<open>rotate_right\<close> is a bijection on the bytes 0..255, eight applications of it give
  the byte back, \<open>rotate_right(0x01) = 0x80\<close> and \<open>rotate_right(0x80) = 0x40\<close>.
\<close>

theorem rotate_right_bijection:
  "bij_betw rotate_right {0..255} {0..255}
   \<and> (\<forall>b\<in>{0..255}. (rotate_right ^^ 8) b = b)
   \<and> rotate_right 0x01 = 0x80 \<and> rotate_right 0x80 = 0x40"
proof -
  have byte: "b \<in> {0..255} \<longleftrightarrow> is_byte b" for b
    by (auto simp add: is_byte_def)
  have inj: "inj_on rotate_right {0..255}"
  proof (rule inj_onI)
    fix x y :: int
    assume "x \<in> {0..255}" "y \<in> {0..255}" "rotate_right x = rotate_right y"
    then show "x = y" using byte rotate_right_inj by blast
  qed
  have img: "rotate_right ` {0..255} = {0..255}"
  proof (intro equalityI subsetI)
    fix y assume "y \<in> rotate_right ` {0..255}"
    then show "y \<in> {0..255}" by (auto simp only: byte is_byte_rotate_right)
  next
    fix y :: int assume y: "y \<in> {0..255}"
    then have "is_byte y" by (simp only: byte)
    then have "rotate_right ((rotate_right ^^ 7) y) = y"
      using funpow8_rotate_right [of y] by (simp add: numeral_eq_Suc)
    moreover have "is_byte ((rotate_right ^^ 7) y)"
      by (simp add: numeral_eq_Suc is_byte_rotate_right)
    ultimately show "y \<in> rotate_right ` {0..255}"
      by (metis byte imageI)
  qed
  have "\<forall>b\<in>{0..255}. (rotate_right ^^ 8) b = b"
    using byte funpow8_rotate_right by blast
  moreover have "rotate_right 0x01 = 0x80" "rotate_right 0x80 = 0x40"
    by (simp_all add: rotate_right_def)
  ultimately show ?thesis using inj img by (simp add: bij_betw_def)
qed

theorem rotate_right_bijection_witness:
  "(0xA5::int) \<in> {0..255} \<and> (rotate_right ^^ 8) 0xA5 = 0xA5 \<and> rotate_right 0xA5 = 0xD2"
proof -
  have m: "(0xA5::int) \<in> {0..255}" by simp
  have "(rotate_right ^^ 8) 0xA5 = 0xA5"
    using rotate_right_bijection m by blast
  moreover have "rotate_right 0xA5 = 0xD2" by (simp add: rotate_right_def)
  ultimately show ?thesis using m by simp
qed

section \<open>Sequences and the full-buffer push\<close>

lemma getitem_nth: "0 \<le> i \<Longrightarrow> i < int (length xs) \<Longrightarrow> getitem xs i = Inr (xs ! nat i)"
  by (simp add: getitem_def)

lemma setitem_update:
  "0 \<le> i \<Longrightarrow> i < int (length xs) \<Longrightarrow> is_byte v \<Longrightarrow> setitem xs i v = Inr (xs[nat i := v])"
  by (simp add: setitem_def is_byte_def)

lemma setitem_beyond: "int (length xs) \<le> i \<Longrightarrow> setitem xs i v = Inl IndexError"
  by (simp add: setitem_def)

lemma setitem_length: "setitem xs i v = Inr ys \<Longrightarrow> length ys = length xs"
  by (auto simp add: setitem_def Let_def split: if_splits)

lemma send_buf_loop_fits:
  assumes "0 \<le> i" "i + 2 * int (length bs) \<le> int (length data) + 1"
  shows "\<exists>d. send_buf_loop bs i data = Inr d \<and> length d = length data
           \<and> (\<forall>k<length bs. d ! (nat i + 2 * k) = rotate_right (bs ! k))
           \<and> (\<forall>j<length data. (\<forall>k<length bs. j \<noteq> nat i + 2 * k) \<longrightarrow> d ! j = data ! j)"
  using assms
proof (induction bs arbitrary: i data)
  case Nil
  then show ?case by simp
next
  case (Cons byte rest)
  let ?data = "data[nat i := rotate_right byte]"
  have step: "setitem data i (rotate_right byte) = Inr ?data"
    using Cons.prems by (simp add: setitem_update is_byte_rotate_right)
  have "0 \<le> i + 2" "i + 2 + 2 * int (length rest) \<le> int (length ?data) + 1"
    using Cons.prems by simp_all
  from Cons.IH [OF this] obtain d where
    d: "send_buf_loop rest (i + 2) ?data = Inr d" "length d = length data"
      "\<forall>k<length rest. d ! (nat (i + 2) + 2 * k) = rotate_right (rest ! k)"
      "\<forall>j<length data. (\<forall>k<length rest. j \<noteq> nat (i + 2) + 2 * k) \<longrightarrow> d ! j = ?data ! j"
    by auto
  have i2: "nat (i + 2) = nat i + 2" using Cons.prems(1) by simp
  have here: "d ! nat i = rotate_right byte"
  proof -
    have "nat i < length data" using Cons.prems by simp
    moreover have "\<forall>k<length rest. nat i \<noteq> nat (i + 2) + 2 * k" by (simp add: i2)
    ultimately have "d ! nat i = ?data ! nat i" using d(4) by blast
    then show ?thesis using \<open>nat i < length data\<close> by simp
  qed
  have hit: "d ! (nat i + 2 * k) = rotate_right ((byte # rest) ! k)" if "k < length (byte # rest)" for k
  proof (cases k)
    case 0
    then show ?thesis by (simp add: here)
  next
    case (Suc k')
    then have "k' < length rest" using that by simp
    then have "d ! (nat (i + 2) + 2 * k') = rotate_right (rest ! k')" using d(3) by blast
    then show ?thesis by (simp add: Suc i2)
  qed
  have miss: "d ! j = data ! j"
    if "j < length data" "\<forall>k<length (byte # rest). j \<noteq> nat i + 2 * k" for j
  proof -
    have "j \<noteq> nat i" using that(2) by fastforce
    moreover have "\<forall>k<length rest. j \<noteq> nat (i + 2) + 2 * k"
    proof (intro allI impI)
      fix k assume "k < length rest"
      then have "j \<noteq> nat i + 2 * Suc k" using that(2) by fastforce
      then show "j \<noteq> nat (i + 2) + 2 * k" by (simp add: i2)
    qed
    ultimately show ?thesis using d(4) that(1) by simp
  qed
  show ?case using step d(1,2) hit miss by simp
qed

lemma send_buf_loop_overrun:
  assumes "bs \<noteq> []" "0 \<le> i" "int (length data) + 2 \<le> i + 2 * int (length bs)"
  shows "send_buf_loop bs i data = Inl IndexError"
  using assms
proof (induction bs arbitrary: i data)
  case Nil
  then show ?case by simp
next
  case (Cons byte rest)
  show ?case
  proof (cases "i < int (length data)")
    case False
    then show ?thesis by (simp add: setitem_beyond)
  next
    case True
    then have step: "setitem data i (rotate_right byte) = Inr (data[nat i := rotate_right byte])"
      using Cons.prems by (simp add: setitem_update is_byte_rotate_right)
    have "rest \<noteq> []" using True Cons.prems by auto
    then have "send_buf_loop rest (i + 2) (data[nat i := rotate_right byte]) = Inl IndexError"
      using Cons.prems by (intro Cons.IH) simp_all
    then show ?thesis by (simp add: step)
  qed
qed

text \<open>The payload of a full-buffer push, for a framebuffer of at most 8 items.\<close>

lemma send_buf_payload:
  assumes "length (buf s) \<le> 8"
  shows "\<exists>data. send_buf s = Inr (s\<lparr>i2c := i2c s @ [(Buf data, addr s)]\<rparr>)
           \<and> length data = 16
           \<and> (\<forall>k<length (buf s). data ! (2 * k + 1) = rotate_right (buf s ! k))
           \<and> (\<forall>k<8. data ! (2 * k) = 0)
           \<and> (\<forall>k<8. length (buf s) \<le> k \<longrightarrow> data ! (2 * k + 1) = 0)"
proof -
  have "0 \<le> (1::int)" "1 + 2 * int (length (buf s)) \<le> int (length (replicate 16 (0::int))) + 1"
    using assms by simp_all
  from send_buf_loop_fits [OF this] obtain d where
    d: "send_buf_loop (buf s) 1 (replicate 16 0) = Inr d" "length d = 16"
      "\<forall>k<length (buf s). d ! (1 + 2 * k) = rotate_right (buf s ! k)"
      "\<forall>j<16. (\<forall>k<length (buf s). j \<noteq> 1 + 2 * k) \<longrightarrow> d ! j = replicate 16 0 ! j"
    by auto
  have even: "d ! (2 * k) = 0" if "k < 8" for k
  proof -
    have "\<forall>k'<length (buf s). 2 * k \<noteq> 1 + 2 * k'" by presburger
    then have "d ! (2 * k) = replicate 16 0 ! (2 * k)" using d(4) that by simp
    then show ?thesis using that by simp
  qed
  have rest: "d ! (2 * k + 1) = 0" if "k < 8" "length (buf s) \<le> k" for k
  proof -
    have "\<forall>k'<length (buf s). 2 * k + 1 \<noteq> 1 + 2 * k'" using that(2) by auto
    then have "d ! (2 * k + 1) = replicate 16 0 ! (2 * k + 1)" using d(4) that(1) by simp
    then show ?thesis using that by simp
  qed
  have "send_buf s = Inr (s\<lparr>i2c := i2c s @ [(Buf d, addr s)]\<rparr>)"
    using d(1) by (simp add: send_buf_def raise_in_def send_def)
  moreover have "\<forall>k<length (buf s). d ! (2 * k + 1) = rotate_right (buf s ! k)"
    using d(3) by simp
  ultimately show ?thesis using d(2) even rest by blast
qed

lemma send_buf_overrun:
  "8 < length (buf s) \<Longrightarrow> send_buf s = Inl (IndexError, s)"
proof -
  assume "8 < length (buf s)"
  then have "send_buf_loop (buf s) 1 (replicate 16 0) = Inl IndexError"
    by (intro send_buf_loop_overrun) auto
  then show ?thesis by (simp add: send_buf_def raise_in_def)
qed

lemma send_buf_returns:
  "send_buf s = Inr s' \<Longrightarrow> length (buf s) \<le> 8 \<and> buf s' = buf s"
  apply (cases "8 < length (buf s)")
   apply (simp add: send_buf_overrun)
  apply (auto simp add: send_buf_def raise_in_def send_def split: sum.splits)
  done

section \<open>What the buffer methods leave alone\<close>

lemma buf_only_refl: "buf_only s s"
  by (simp add: buf_only_def)

lemma buf_only_trans: "buf_only s t \<Longrightarrow> buf_only t u \<Longrightarrow> buf_only s u"
  by (cases s, cases t, cases u) (simp add: buf_only_def)

lemma buf_only_update:
  "length bs = length (buf s) \<Longrightarrow> buf_only s (s\<lparr>buf := bs\<rparr>)"
  by (simp add: buf_only_def)

lemma raise_in_Inr: "raise_in s r k = Inr s' \<longleftrightarrow> (\<exists>v. r = Inr v \<and> k v = Inr s')"
  by (cases r) (simp_all add: raise_in_def)

lemma then_do_Inr: "then_do r k = Inr s' \<longleftrightarrow> (\<exists>t. r = Inr t \<and> k t = Inr s')"
  by (cases r) (simp_all add: then_do_def)

lemma aug_assign_frame:
  assumes "aug_assign f row rhs s = Inr s'"
  shows "buf_only s s'"
proof -
  from assms obtain old v bs where
    "setitem (buf s) row (f old v) = Inr bs" "s' = s\<lparr>buf := bs\<rparr>"
    unfolding aug_assign_def raise_in_Inr by auto
  then show ?thesis by (simp add: buf_only_update setitem_length)
qed

lemma clear_column_rows_frame: "clear_column_rows msk rows s = Inr s' \<Longrightarrow> buf_only s s'"
proof (induction rows arbitrary: s)
  case Nil
  then show ?case by (simp add: buf_only_refl)
next
  case (Cons row rows)
  from Cons.prems obtain b t where
    t: "(if b AND msk \<noteq> 0 then aug_assign (XOR) row (Inr msk) s else Inr s) = Inr t"
       "clear_column_rows msk rows t = Inr s'"
    unfolding clear_column_rows.simps raise_in_Inr then_do_Inr by blast
  have "buf_only s t"
    using t(1) by (cases "b AND msk \<noteq> 0") (auto simp add: buf_only_refl dest: aug_assign_frame)
  then show ?case using Cons.IH [OF t(2)] buf_only_trans by blast
qed

lemma set_column_rows_frame:
  "set_column_rows column byte msk rows s = Inr s' \<Longrightarrow> buf_only s s'"
proof (induction rows arbitrary: s msk)
  case Nil
  then show ?case by (simp add: buf_only_refl)
next
  case (Cons row rows)
  from Cons.prems obtain t where
    t: "(if column - row \<ge> 0
         then aug_assign (OR) row (py_rshift (byte AND msk) (column - row)) s
         else aug_assign (OR) row (py_lshift (byte AND msk) \<bar>column - row\<bar>) s) = Inr t"
       "set_column_rows column byte (drop_bit 1 msk) rows t = Inr s'"
    unfolding set_column_rows.simps Let_def then_do_Inr by blast
  have "buf_only s t"
    using t(1) by (cases "column - row \<ge> 0") (auto dest: aug_assign_frame)
  then show ?case using Cons.IH [OF t(2)] buf_only_trans by blast
qed

lemma clear_rows_frame: "clear_rows rows s = Inr s' \<Longrightarrow> buf_only s s'"
proof (induction rows arbitrary: s)
  case Nil
  then show ?case by (simp add: buf_only_refl)
next
  case (Cons i rest)
  from Cons.prems obtain bs where
    bs: "setitem (buf s) i 0 = Inr bs" "clear_rows rest (s\<lparr>buf := bs\<rparr>) = Inr s'"
    unfolding clear_rows.simps raise_in_Inr by blast
  have "buf_only s (s\<lparr>buf := bs\<rparr>)"
    using bs(1) by (simp add: buf_only_update setitem_length)
  then show ?case using Cons.IH [OF bs(2)] buf_only_trans by blast
qed

lemma priv_clear_column_frame: "priv_clear_column column s = Inr s' \<Longrightarrow> buf_only s s'"
  unfolding priv_clear_column_def raise_in_Inr by (auto dest: clear_column_rows_frame)

lemma priv_set_column_frame:
  assumes "priv_set_column column byte s = Inr s'"
  shows "buf_only s s'"
proof -
  from assms obtain t where
    t: "priv_clear_column column s = Inr t"
       "(if byte = 0 then Inr t else set_column_rows column byte 0x80 range8 t) = Inr s'"
    unfolding priv_set_column_def then_do_Inr by blast
  have "buf_only t s'"
    using t(2) by (cases "byte = 0") (auto simp add: buf_only_refl dest: set_column_rows_frame)
  then show ?thesis using priv_clear_column_frame [OF t(1)] buf_only_trans by blast
qed

lemma send_buf_effect:
  "send_buf s = Inr s' \<Longrightarrow> \<exists>data. s' = s\<lparr>i2c := i2c s @ [(Buf data, addr s)]\<rparr>"
  unfolding send_buf_def raise_in_Inr by (auto simp add: send_def)

lemma send_row_effect:
  "send_row row s = Inr s' \<Longrightarrow> \<exists>data. s' = s\<lparr>i2c := i2c s @ [(Buf data, addr s)]\<rparr>"
  unfolding send_row_def raise_in_Inr by (auto simp add: send_def)

section \<open>Clearing a column\<close>

lemma and_exp_nonzero: "(b::int) AND 2 ^ j \<noteq> 0 \<longleftrightarrow> bit b j"
  by (simp add: and_exp_eq_0_iff_not_bit)

lemma xor_exp_clears: "bit (b::int) j \<Longrightarrow> b XOR 2 ^ j = b AND NOT (2 ^ j)"
  by (rule bit_eqI) (auto simp add: bit_simps)

lemma and_not_exp_id: "\<not> bit (b::int) j \<Longrightarrow> b AND NOT (2 ^ j) = b"
  by (rule bit_eqI) (auto simp add: bit_simps)

lemma is_byte_and: "is_byte b \<Longrightarrow> is_byte (b AND x)"
  unfolding is_byte_def using AND_upper1 [of b x] by (simp add: le_less_trans)

lemma is_byte_or_exp: "is_byte b \<Longrightarrow> j < 8 \<Longrightarrow> is_byte (b OR 2 ^ j)"
  unfolding is_byte_take_bit by (rule bit_eqI) (auto simp add: bit_simps)

lemma col_mask: "c \<le> 7 \<Longrightarrow> drop_bit c (0x80::int) = 2 ^ (7 - c)"
proof -
  assume "c \<le> 7"
  have "(0x80::int) = 2 ^ 7" by simp
  then have "drop_bit c (0x80::int) = drop_bit c (2 ^ 7)" by simp
  also have "\<dots> = 2 ^ (7 - c)" using \<open>c \<le> 7\<close> by (simp only: drop_bit_exp_eq) simp
  finally show ?thesis .
qed

lemma list_all_update: "list_all P xs \<Longrightarrow> P v \<Longrightarrow> list_all P (xs[i := v])"
  by (induction xs arbitrary: i) (auto split: nat.splits)

lemma range8_upt: "range8 = map int [0..<8]"
  by (simp add: range8_def eval_nat_numeral)

lemma clear_column_rows_step:
  assumes "0 \<le> row" "row < int (length (buf s))" "list_all is_byte (buf s)"
  shows "clear_column_rows (2 ^ j) (row # rows) s =
         clear_column_rows (2 ^ j) rows (s\<lparr>buf := (buf s)[nat row := buf s ! nat row AND NOT (2 ^ j)]\<rparr>)"
proof -
  let ?b = "buf s ! nat row"
  have get: "getitem (buf s) row = Inr ?b" using assms by (simp add: getitem_nth)
  have byte: "is_byte ?b" using assms by (simp add: list_all_length)
  show ?thesis
  proof (cases "bit ?b j")
    case True
    have "setitem (buf s) row (?b XOR 2 ^ j) = Inr ((buf s)[nat row := ?b AND NOT (2 ^ j)])"
      using assms byte True by (simp add: xor_exp_clears setitem_update is_byte_and)
    then show ?thesis
      using True get by (simp add: raise_in_def then_do_def aug_assign_def and_exp_nonzero)
  next
    case False
    then show ?thesis
      using get by (simp add: raise_in_def then_do_def and_exp_nonzero and_not_exp_id)
  qed
qed

lemma clear_column_rows_closed:
  assumes "\<forall>r\<in>set rows. 0 \<le> r \<and> r < int (length (buf s))" "list_all is_byte (buf s)"
  shows "\<exists>s'. clear_column_rows (2 ^ j) rows s = Inr s' \<and> buf_only s s'
           \<and> list_all is_byte (buf s')
           \<and> (\<forall>k<length (buf s). buf s' ! k =
                 (if int k \<in> set rows then buf s ! k AND NOT (2 ^ j) else buf s ! k))"
  using assms
proof (induction rows arbitrary: s)
  case Nil
  then show ?case by (simp add: buf_only_refl)
next
  case (Cons row rows)
  let ?t = "s\<lparr>buf := (buf s)[nat row := buf s ! nat row AND NOT (2 ^ j)]\<rparr>"
  have row: "0 \<le> row" "row < int (length (buf s))" using Cons.prems(1) by simp_all
  have step: "clear_column_rows (2 ^ j) (row # rows) s = clear_column_rows (2 ^ j) rows ?t"
    using row Cons.prems(2) by (rule clear_column_rows_step)
  have "is_byte (buf s ! nat row)" using Cons.prems(2) row by (simp add: list_all_length)
  then have bytes: "list_all is_byte (buf ?t)"
    using Cons.prems(2) by (simp add: list_all_update is_byte_and)
  have "\<forall>r\<in>set rows. 0 \<le> r \<and> r < int (length (buf ?t))" using Cons.prems(1) by simp
  from Cons.IH [OF this bytes] obtain s' where
    s': "clear_column_rows (2 ^ j) rows ?t = Inr s'" "buf_only ?t s'" "list_all is_byte (buf s')"
      "\<forall>k<length (buf s). buf s' ! k =
          (if int k \<in> set rows then buf ?t ! k AND NOT (2 ^ j) else buf ?t ! k)"
    by auto
  have frame: "buf_only s s'"
    using buf_only_update [of "buf ?t" s] s'(2) buf_only_trans by fastforce
  have "buf s' ! k = (if int k \<in> set (row # rows) then buf s ! k AND NOT (2 ^ j) else buf s ! k)"
    if "k < length (buf s)" for k
  proof (cases "k = nat row")
    case True
    then show ?thesis using s'(4) that row by (simp add: and.assoc)
  next
    case False
    then have "int k \<noteq> row" by auto
    then show ?thesis using s'(4) that False by simp
  qed
  then show ?case using step s'(1,3) frame by simp
qed

section \<open>Setting a column\<close>

lemma and_exp_cases: "(b::int) AND 2 ^ j = (if bit b j then 2 ^ j else 0)"
  by (rule bit_eqI) (auto simp add: bit_simps)

lemma drop_exp: "r \<le> c \<Longrightarrow> c \<le> 7 \<Longrightarrow> drop_bit (c - r) ((2::int) ^ (7 - r)) = 2 ^ (7 - c)"
  by (simp add: drop_bit_exp_eq)

lemma push_exp: "c < r \<Longrightarrow> r < 8 \<Longrightarrow> push_bit (r - c) ((2::int) ^ (7 - r)) = 2 ^ (7 - c)"
proof -
  assume "c < r" "r < 8"
  then have "r - c + (7 - r) = 7 - c" by simp
  then show ?thesis by (simp add: push_bit_eq_mult flip: power_add)
qed

lemma next_mask: "drop_bit 1 (drop_bit r (0x80::int)) = drop_bit (Suc r) 0x80"
  by (simp add: drop_bit_drop_bit del: drop_bit_Suc)

lemma buf_only_via:
  "buf_only (s\<lparr>buf := bs\<rparr>) s' \<Longrightarrow> length bs = length (buf s) \<Longrightarrow> buf_only s s'"
  using buf_only_trans [OF buf_only_update] by blast

lemma set_column_rows_step:
  assumes "r < 8" "c \<le> 7" "length (buf s) = 8" "list_all is_byte (buf s)"
  shows "set_column_rows (int c) byte (drop_bit r 0x80) (int r # rows) s =
         set_column_rows (int c) byte (drop_bit (Suc r) 0x80) rows
           (s\<lparr>buf := (buf s)[r := buf s ! r OR (if bit byte (7 - r) then 2 ^ (7 - c) else 0)]\<rparr>)"
proof -
  let ?v = "if bit byte (7 - r) then 2 ^ (7 - c) else (0::int)"
  have m: "drop_bit r (0x80::int) = 2 ^ (7 - r)" using assms(1) by (simp add: col_mask)
  have get: "getitem (buf s) (int r) = Inr (buf s ! r)"
    using assms by (simp add: getitem_nth)
  have byte: "is_byte (buf s ! r)" using assms by (simp add: list_all_length)
  have v: "is_byte (buf s ! r OR ?v)" using byte by (simp add: is_byte_or_exp)
  have put: "setitem (buf s) (int r) (buf s ! r OR ?v) = Inr ((buf s)[r := buf s ! r OR ?v])"
    using assms v setitem_update [of "int r" "buf s"] by simp
  have shifted: "byte AND drop_bit r 0x80 = (if bit byte (7 - r) then 2 ^ (7 - r) else 0)"
    by (simp only: m and_exp_cases)
  show ?thesis
  proof (cases "r \<le> c")
    case True
    then have "int c - int r \<ge> 0" "nat (int c - int r) = c - r" by simp_all
    moreover have "drop_bit (c - r) (byte AND drop_bit r 0x80) = ?v"
      unfolding shifted using drop_exp [OF True assms(2)] by (cases "bit byte (7 - r)") simp_all
    ultimately have "py_rshift (byte AND drop_bit r 0x80) (int c - int r) = Inr ?v"
      by (simp only: py_rshift_def) simp
    then have "aug_assign (OR) (int r) (py_rshift (byte AND drop_bit r 0x80) (int c - int r)) s
        = Inr (s\<lparr>buf := (buf s)[r := buf s ! r OR ?v]\<rparr>)"
      using get put by (simp only: aug_assign_def raise_in_def sum.case)
    then show ?thesis
      using \<open>int c - int r \<ge> 0\<close>
      by (simp only: set_column_rows.simps Let_def then_do_def if_True sum.case next_mask)
  next
    case False
    then have neg: "\<not> int c - int r \<ge> 0" "nat \<bar>int c - int r\<bar> = r - c" by simp_all
    have "c < r" using False by simp
    have "push_bit (r - c) (byte AND drop_bit r 0x80) = ?v"
      unfolding shifted using push_exp [OF \<open>c < r\<close> assms(1)]
      by (cases "bit byte (7 - r)") simp_all
    then have "py_lshift (byte AND drop_bit r 0x80) \<bar>int c - int r\<bar> = Inr ?v"
      using neg(2) by (simp only: py_lshift_def) simp
    then have "aug_assign (OR) (int r) (py_lshift (byte AND drop_bit r 0x80) \<bar>int c - int r\<bar>) s
        = Inr (s\<lparr>buf := (buf s)[r := buf s ! r OR ?v]\<rparr>)"
      using get put by (simp only: aug_assign_def raise_in_def sum.case)
    then show ?thesis
      using neg(1)
      by (simp only: set_column_rows.simps Let_def then_do_def if_False sum.case next_mask)
  qed
qed

lemma set_column_rows_closed:
  assumes "r \<le> 8" "c \<le> 7" "length (buf s) = 8" "list_all is_byte (buf s)"
  shows "\<exists>s'. set_column_rows (int c) byte (drop_bit r 0x80) (map int [r..<8]) s = Inr s'
           \<and> buf_only s s' \<and> list_all is_byte (buf s')
           \<and> (\<forall>k<8. buf s' ! k =
                 (if r \<le> k \<and> bit byte (7 - k) then buf s ! k OR 2 ^ (7 - c) else buf s ! k))"
  using assms
proof (induction r arbitrary: s rule: inc_induct)
  case base
  then show ?case by (simp add: buf_only_refl)
next
  case (step r)
  let ?v = "if bit byte (7 - r) then 2 ^ (7 - c) else (0::int)"
  let ?t = "s\<lparr>buf := (buf s)[r := buf s ! r OR ?v]\<rparr>"
  have rows: "map int [r..<8] = int r # map int [Suc r..<8]"
    using step.hyps by (simp add: upt_conv_Cons)
  have unfold: "set_column_rows (int c) byte (drop_bit r 0x80) (map int [r..<8]) s =
      set_column_rows (int c) byte (drop_bit (Suc r) 0x80) (map int [Suc r..<8]) ?t"
    unfolding rows using step.hyps(2) step.prems by (rule set_column_rows_step)
  have "is_byte (buf s ! r)" using step.hyps step.prems by (simp add: list_all_length)
  then have "is_byte (buf s ! r OR ?v)" by (simp add: is_byte_or_exp)
  then have bytes: "list_all is_byte (buf ?t)" using step.prems by (simp add: list_all_update)
  have len: "length (buf ?t) = 8" using step.prems by simp
  from step.IH [OF step.prems(1) len bytes] obtain s' where
    s': "set_column_rows (int c) byte (drop_bit (Suc r) 0x80) (map int [Suc r..<8]) ?t = Inr s'"
      "buf_only ?t s'" "list_all is_byte (buf s')"
      "\<forall>k<8. buf s' ! k =
          (if Suc r \<le> k \<and> bit byte (7 - k) then buf ?t ! k OR 2 ^ (7 - c) else buf ?t ! k)"
    by auto
  have frame: "buf_only s s'"
    using s'(2) by (rule buf_only_via) simp
  have "buf s' ! k = (if r \<le> k \<and> bit byte (7 - k) then buf s ! k OR 2 ^ (7 - c) else buf s ! k)"
    if "k < 8" for k
  proof (cases "k = r")
    case True
    then show ?thesis using s'(4) that step.prems by simp
  next
    case False
    then have "r \<le> k \<longleftrightarrow> Suc r \<le> k" by auto
    then show ?thesis using s'(4) that False by simp
  qed
  then show ?case using unfold s'(1,3) frame by simp
qed

section \<open>The column methods on a well-formed framebuffer\<close>

lemma range8_set: "k < 8 \<Longrightarrow> int k \<in> set range8"
  by (auto simp add: range8_upt)

lemma range8_bounds: "\<forall>r\<in>set range8. 0 \<le> r \<and> r < 8"
  by (simp add: range8_def)

lemma priv_clear_column_closed:
  assumes "framebuffer_ok s" "c \<le> 7"
  shows "\<exists>s'. priv_clear_column (int c) s = Inr s' \<and> buf_only s s' \<and> framebuffer_ok s'
           \<and> (\<forall>k<8. buf s' ! k = buf s ! k AND NOT (2 ^ (7 - c)))"
proof -
  have len: "length (buf s) = 8" and bytes: "list_all is_byte (buf s)"
    using assms(1) by (simp_all add: framebuffer_ok_def)
  have "\<forall>r\<in>set range8. 0 \<le> r \<and> r < int (length (buf s))"
    using range8_bounds len by simp
  from clear_column_rows_closed [OF this bytes, of "7 - c"] obtain s' where
    s': "clear_column_rows (2 ^ (7 - c)) range8 s = Inr s'" "buf_only s s'"
      "list_all is_byte (buf s')"
      "\<forall>k<length (buf s). buf s' ! k =
          (if int k \<in> set range8 then buf s ! k AND NOT (2 ^ (7 - c)) else buf s ! k)"
    by blast
  have "py_rshift 0x80 (int c) = Inr (2 ^ (7 - c))"
    using assms(2) by (simp add: py_rshift_def col_mask)
  then have "priv_clear_column (int c) s = Inr s'"
    using s'(1) by (simp add: priv_clear_column_def raise_in_def)
  moreover have "framebuffer_ok s'"
    using s'(2,3) len by (simp add: framebuffer_ok_def buf_only_def)
  moreover have "\<forall>k<8. buf s' ! k = buf s ! k AND NOT (2 ^ (7 - c))"
    using s'(4) len range8_set by simp
  ultimately show ?thesis using s'(2) by blast
qed

lemma priv_set_column_closed:
  assumes "framebuffer_ok s" "c \<le> 7"
  shows "\<exists>s'. priv_set_column (int c) byte s = Inr s' \<and> buf_only s s' \<and> framebuffer_ok s'
           \<and> (\<forall>k<8. buf s' ! k =
                 (buf s ! k AND NOT (2 ^ (7 - c))) OR (if bit byte (7 - k) then 2 ^ (7 - c) else 0))"
proof -
  from priv_clear_column_closed [OF assms] obtain t where
    t: "priv_clear_column (int c) s = Inr t" "buf_only s t" "framebuffer_ok t"
      "\<forall>k<8. buf t ! k = buf s ! k AND NOT (2 ^ (7 - c))"
    by blast
  show ?thesis
  proof (cases "byte = 0")
    case True
    then have "priv_set_column (int c) byte s = Inr t"
      using t(1) by (simp add: priv_set_column_def then_do_def)
    then show ?thesis using t True by simp
  next
    case False
    have len: "length (buf t) = 8" and bytes: "list_all is_byte (buf t)"
      using t(3) by (simp_all add: framebuffer_ok_def)
    from set_column_rows_closed [OF _ assms(2) len bytes, of 0 byte] obtain s' where
      s': "set_column_rows (int c) byte (drop_bit 0 0x80) (map int [0..<8]) t = Inr s'"
        "buf_only t s'" "list_all is_byte (buf s')"
        "\<forall>k<8. buf s' ! k =
            (if 0 \<le> k \<and> bit byte (7 - k) then buf t ! k OR 2 ^ (7 - c) else buf t ! k)"
      by blast
    have "priv_set_column (int c) byte s = Inr s'"
      using t(1) s'(1) False by (simp add: priv_set_column_def then_do_def range8_upt)
    moreover have "buf_only s s'" using t(2) s'(2) by (rule buf_only_trans)
    moreover have "framebuffer_ok s'"
      using s'(2,3) len by (simp add: framebuffer_ok_def buf_only_def)
    moreover have "\<forall>k<8. buf s' ! k =
        (buf s ! k AND NOT (2 ^ (7 - c))) OR (if bit byte (7 - k) then 2 ^ (7 - c) else 0)"
      using s'(4) t(4) by simp
    ultimately show ?thesis by blast
  qed
qed

lemma byte_from_bits:
  assumes "is_byte B"
  shows "(\<Sum>k\<leftarrow>[0..<8]. if bit B (7 - k) then drop_bit k 0x80 else 0) = B"
proof -
  have "horner_sum of_bool 2 (map (bit B) [0..<8]) = take_bit 8 B"
    by (rule horner_sum_bit_eq_take_bit)
  then have "horner_sum of_bool 2 (map (bit B) [0, 1, 2, 3, 4, 5, 6, 7]) = B"
    using assms by (simp add: is_byte_take_bit eval_nat_numeral)
  then show ?thesis
    by (simp add: eval_nat_numeral of_bool_def drop_bit_eq_div split: if_splits)
qed

lemma send_buf_keeps:
  assumes "framebuffer_ok t"
  shows "\<exists>s'. send_buf t = Inr s' \<and> buf s' = buf t"
proof -
  have "length (buf t) \<le> 8" using assms by (simp add: framebuffer_ok_def)
  from send_buf_payload [OF this] obtain data where
    "send_buf t = Inr (t\<lparr>i2c := i2c t @ [(Buf data, addr t)]\<rparr>)" by blast
  then show ?thesis by simp
qed

lemma set_column_closed:
  assumes "framebuffer_ok s" "c \<le> 7"
  shows "\<exists>s'. set_column (int c) byte s = Inr s'
           \<and> (\<forall>k<8. buf s' ! k =
                 (buf s ! k AND NOT (2 ^ (7 - c))) OR (if bit byte (7 - k) then 2 ^ (7 - c) else 0))"
proof -
  from priv_set_column_closed [OF assms, of byte] obtain t where
    t: "priv_set_column (int c) byte s = Inr t" "framebuffer_ok t"
      "\<forall>k<8. buf t ! k =
          (buf s ! k AND NOT (2 ^ (7 - c))) OR (if bit byte (7 - k) then 2 ^ (7 - c) else 0)"
    by blast
  from send_buf_keeps [OF t(2)] obtain s' where "send_buf t = Inr s'" "buf s' = buf t" by blast
  then show ?thesis using t(1,3) by (simp add: set_column_def then_do_def)
qed

lemma clear_column_closed:
  assumes "framebuffer_ok s" "c \<le> 7"
  shows "\<exists>s'. clear_column (int c) s = Inr s'
           \<and> (\<forall>k<8. buf s' ! k = buf s ! k AND NOT (2 ^ (7 - c)))"
proof -
  from priv_clear_column_closed [OF assms] obtain t where
    t: "priv_clear_column (int c) s = Inr t" "framebuffer_ok t"
      "\<forall>k<8. buf t ! k = buf s ! k AND NOT (2 ^ (7 - c))"
    by blast
  from send_buf_keeps [OF t(2)] obtain s' where "send_buf t = Inr s'" "buf s' = buf t" by blast
  then show ?thesis using t(1,3) by (simp add: clear_column_def then_do_def)
qed

lemma set_bit_reads: "((a AND NOT (2 ^ j)) OR (if p then 2 ^ j else 0)) AND 2 ^ j \<noteq> (0::int) \<longleftrightarrow> p"
  by (cases p) (simp_all add: and_exp_nonzero bit_simps)

text \<open>
  C4. For every byte \<open>B\<close> in 0..255, \<open>set_column(3, B)\<close> on an 8-byte framebuffer
  returns, and the byte rebuilt from bit \<open>0x80 >> 3\<close> of rows 0..7, row \<open>k\<close> giving bit
  position \<open>k\<close> from the most significant bit, is \<open>B\<close> again.
\<close>

theorem set_column_round_trip:
  assumes "framebuffer_ok s" "0 \<le> B" "B \<le> 255"
  shows "\<exists>s'. set_column 3 B s = Inr s' \<and> column_byte 3 (buf s') = B"
proof -
  have "is_byte B" using assms(2,3) by (simp add: is_byte_def)
  from set_column_closed [OF assms(1), of 3 B] obtain s' where
    s': "set_column 3 B s = Inr s'"
      "\<forall>k<8. buf s' ! k = (buf s ! k AND NOT (2 ^ 4)) OR (if bit B (7 - k) then 2 ^ 4 else 0)"
    by auto
  have m: "drop_bit 3 (0x80::int) = 2 ^ 4" by (simp add: col_mask)
  have "buf s' ! k AND drop_bit 3 0x80 \<noteq> 0 \<longleftrightarrow> bit B (7 - k)" if "k < 8" for k
    using s'(2) that unfolding m by (simp only: set_bit_reads)
  then have "column_byte 3 (buf s') =
      (\<Sum>k\<leftarrow>[0..<8]. if bit B (7 - k) then drop_bit k 0x80 else 0)"
    unfolding column_byte_def by (intro arg_cong [where f = sum_list] map_cong) simp_all
  then show ?thesis using s'(1) byte_from_bits [OF \<open>is_byte B\<close>] by simp
qed

theorem set_column_round_trip_witness:
  "framebuffer_ok fresh \<and> (\<exists>s'. set_column 3 0xA5 fresh = Inr s' \<and> column_byte 3 (buf s') = 0xA5)"
proof -
  have ok: "framebuffer_ok fresh" by (simp add: framebuffer_ok_def fresh_def is_byte_def)
  show ?thesis using ok set_column_round_trip [OF ok, of "0xA5"] by simp
qed

text \<open>
  C5. For every column \<open>c\<close> in 0..7, with \<open>m = 0x80 >> c\<close>: \<open>set_column(c, 0xFF)\<close> sets
  bit \<open>m\<close> in each of the 8 rows, and \<open>clear_column(c)\<close> clears bit \<open>m\<close> in each row
  and leaves the other bits of each row as they were.
\<close>

theorem column_set_and_clear:
  assumes "framebuffer_ok s" "0 \<le> c" "c \<le> 7" "py_rshift 0x80 c = Inr m"
  shows "m \<noteq> 0
       \<and> (\<exists>s'. set_column c 0xFF s = Inr s' \<and> (\<forall>k<8. buf s' ! k AND m = m))
       \<and> (\<exists>s'. clear_column c s = Inr s'
              \<and> (\<forall>k<8. buf s' ! k AND m = 0 \<and> buf s' ! k AND NOT m = buf s ! k AND NOT m))"
proof -
  define j where "j = 7 - nat c"
  have c: "int (nat c) = c" "nat c \<le> 7" using assms(2,3) by simp_all
  have m: "m = 2 ^ j"
    using assms(2,4) c(2) by (simp add: py_rshift_def col_mask j_def)
  have all_set: "bit (0xFF::int) (7 - k)" for k
  proof -
    have "(0xFF::int) = mask 8" by (simp add: mask_eq_exp_minus_1)
    then show ?thesis by (simp only: bit_mask_iff) simp
  qed
  from set_column_closed [OF assms(1) c(2), of "0xFF"] obtain s1 where
    s1: "set_column c 0xFF s = Inr s1" "\<forall>k<8. buf s1 ! k = (buf s ! k AND NOT m) OR m"
    unfolding c(1) m j_def using all_set by auto
  from clear_column_closed [OF assms(1) c(2)] obtain s2 where
    s2: "clear_column c s = Inr s2" "\<forall>k<8. buf s2 ! k = buf s ! k AND NOT m"
    unfolding c(1) m j_def by auto
  have "\<forall>k<8. buf s1 ! k AND m = m"
    using s1(2) by (simp add: bit.conj_disj_distrib2 and.assoc)
  moreover have "\<forall>k<8. buf s2 ! k AND m = 0 \<and> buf s2 ! k AND NOT m = buf s ! k AND NOT m"
    using s2(2) by (simp add: and.assoc)
  moreover have "m \<noteq> 0" by (simp add: m)
  ultimately show ?thesis using s1(1) s2(1) by blast
qed

theorem column_set_and_clear_witness:
  "framebuffer_ok fresh \<and> (0::int) \<le> 2 \<and> (2::int) \<le> 7 \<and> py_rshift 0x80 2 = Inr 0x20
   \<and> (\<exists>s'. set_column 2 0xFF fresh = Inr s' \<and> (\<forall>k<8. buf s' ! k AND 0x20 = 0x20))
   \<and> (\<exists>s'. clear_column 2 fresh = Inr s'
          \<and> (\<forall>k<8. buf s' ! k AND 0x20 = 0
                \<and> buf s' ! k AND NOT 0x20 = buf fresh ! k AND NOT 0x20))"
proof -
  have ok: "framebuffer_ok fresh" by (simp add: framebuffer_ok_def fresh_def is_byte_def)
  have m: "py_rshift 0x80 2 = Inr 0x20" by (simp add: py_rshift_def drop_bit_eq_div)
  show ?thesis using ok m column_set_and_clear [OF ok _ _ m] by simp
qed

section \<open>Rows\<close>

lemma row_addr_nth: "k < 8 \<Longrightarrow> row_addr ! k = 2 * int k"
proof -
  assume "k < 8"
  then have "k \<in> {0, 1, 2, 3, 4, 5, 6, 7}" by auto
  then show ?thesis by (auto simp add: row_addr_def)
qed

lemma send_row_closed:
  assumes "length (buf s) = 8" "k < 8" "row = int k \<or> row = int k - 8"
  shows "send_row row s =
         Inr (s\<lparr>i2c := i2c s @ [(Buf [2 * int k, rotate_right (buf s ! k)], addr s)]\<rparr>)"
proof -
  have idx: "(if row < 0 then row + 8 else row) = int k"
    using assms(2,3) by auto
  have "length row_addr = 8" by (simp add: row_addr_def)
  then have a: "getitem row_addr row = Inr (2 * int k)"
    using assms(2) idx by (simp add: getitem_def row_addr_nth)
  have b: "getitem (buf s) row = Inr (buf s ! k)"
    using assms(1,2) idx by (simp add: getitem_def)
  have "is_byte (2 * int k)" using assms(2) by (simp add: is_byte_def)
  then have c: "to_bytes [2 * int k, rotate_right (buf s ! k)] =
      Inr [2 * int k, rotate_right (buf s ! k)]"
    using is_byte_rotate_right [of "buf s ! k"] by (simp add: to_bytes_def is_byte_def)
  show ?thesis by (simp add: send_row_def raise_in_def a b c send_def)
qed

lemma set_row_closed:
  assumes "length (buf s) = 8" "k < 8" "row = int k \<or> row = int k - 8" "is_byte b"
  shows "set_row row b s =
         Inr (s\<lparr>buf := (buf s)[k := b],
               i2c := i2c s @ [(Buf [2 * int k, rotate_right b], addr s)]\<rparr>)"
proof -
  have idx: "(if row < 0 then row + 8 else row) = int k"
    using assms(2,3) by auto
  have put: "setitem (buf s) row b = Inr ((buf s)[k := b])"
    using assms(1,2,4) idx by (simp add: setitem_def is_byte_def)
  have "send_row row (s\<lparr>buf := (buf s)[k := b]\<rparr>) =
      Inr (s\<lparr>buf := (buf s)[k := b],
            i2c := i2c s @ [(Buf [2 * int k, rotate_right b], addr s)]\<rparr>)"
    using assms(1,2,3) by (simp add: send_row_closed)
  then show ?thesis by (simp add: set_row_def raise_in_def put)
qed

lemma set_row_rejects:
  assumes "length (buf s) = 8" "row > 7 \<or> row < - 8"
  shows "set_row row b s = Inl (IndexError, s)"
  using assms by (auto simp add: set_row_def raise_in_def setitem_def)

text \<open>
  C10. On an 8-byte framebuffer, for every row index \<open>r\<close> in -8..-1 and byte \<open>b\<close> in
  0..255, \<open>set_row(r, b)\<close> raises nothing: it stores \<open>b\<close> in row \<open>r + 8\<close> and sends that
  row, \<open>[row_addr[r + 8], rotate_right(b)]\<close>. A row index in 0..7 is stored and sent at
  that row, and a row index above 7 or below -8 raises IndexError, with the object
  untouched.
\<close>

theorem set_row_negative_index:
  assumes "length (buf s) = 8" "0 \<le> b" "b \<le> 255"
  shows "(- 8 \<le> r \<and> r \<le> - 1 \<longrightarrow>
            set_row r b s =
              Inr (s\<lparr>buf := (buf s)[nat (r + 8) := b],
                    i2c := i2c s @ [(Buf [row_addr ! nat (r + 8), rotate_right b], addr s)]\<rparr>))
       \<and> (0 \<le> r \<and> r \<le> 7 \<longrightarrow>
            set_row r b s =
              Inr (s\<lparr>buf := (buf s)[nat r := b],
                    i2c := i2c s @ [(Buf [row_addr ! nat r, rotate_right b], addr s)]\<rparr>))
       \<and> (r > 7 \<or> r < - 8 \<longrightarrow> set_row r b s = Inl (IndexError, s))"
proof (intro conjI impI)
  assume r: "0 \<le> r \<and> r \<le> 7"
  then have k: "nat r < 8" "r = int (nat r) \<or> r = int (nat r) - 8" by auto
  have "is_byte b" using assms(2,3) by (simp add: is_byte_def)
  from set_row_closed [OF assms(1) k this]
  show "set_row r b s =
      Inr (s\<lparr>buf := (buf s)[nat r := b],
            i2c := i2c s @ [(Buf [row_addr ! nat r, rotate_right b], addr s)]\<rparr>)"
    using k(1) by (simp only: row_addr_nth)
next
  assume r: "- 8 \<le> r \<and> r \<le> - 1"
  then have k: "nat (r + 8) < 8" "r = int (nat (r + 8)) \<or> r = int (nat (r + 8)) - 8" by auto
  have "is_byte b" using assms(2,3) by (simp add: is_byte_def)
  from set_row_closed [OF assms(1) k this]
  show "set_row r b s =
      Inr (s\<lparr>buf := (buf s)[nat (r + 8) := b],
            i2c := i2c s @ [(Buf [row_addr ! nat (r + 8), rotate_right b], addr s)]\<rparr>)"
    using k(1) by (simp only: row_addr_nth)
next
  assume "r > 7 \<or> r < - 8"
  then show "set_row r b s = Inl (IndexError, s)"
    using assms(1) by (rule set_row_rejects [rotated])
qed

theorem set_row_negative_index_witness:
  "length (buf fresh) = 8 \<and> (0::int) \<le> 0x3C \<and> (0x3C::int) \<le> 255
   \<and> set_row (- 1) 0x3C fresh =
       Inr (fresh\<lparr>buf := [0, 0, 0, 0, 0, 0, 0, 0x3C], i2c := [(Buf [0x0E, 0x1E], 0x70)]\<rparr>)
   \<and> set_row 7 0x3C fresh =
       Inr (fresh\<lparr>buf := [0, 0, 0, 0, 0, 0, 0, 0x3C], i2c := [(Buf [0x0E, 0x1E], 0x70)]\<rparr>)
   \<and> set_row 8 0x3C fresh = Inl (IndexError, fresh)
   \<and> set_row (- 9) 0x3C fresh = Inl (IndexError, fresh)"
proof -
  have len: "length (buf fresh) = 8" by (simp add: fresh_def)
  have rr: "rotate_right 0x3C = 0x1E" by (simp add: rotate_right_def)
  have "set_row (- 1) 0x3C fresh =
       Inr (fresh\<lparr>buf := [0, 0, 0, 0, 0, 0, 0, 0x3C], i2c := [(Buf [0x0E, 0x1E], 0x70)]\<rparr>)"
    using set_row_negative_index [OF len, of "0x3C" "- 1"]
    by (simp add: rr) (simp add: fresh_def row_addr_def)
  moreover have "set_row 7 0x3C fresh =
       Inr (fresh\<lparr>buf := [0, 0, 0, 0, 0, 0, 0, 0x3C], i2c := [(Buf [0x0E, 0x1E], 0x70)]\<rparr>)"
    using set_row_negative_index [OF len, of "0x3C" 7]
    by (simp add: rr) (simp add: fresh_def row_addr_def)
  moreover have "set_row 8 0x3C fresh = Inl (IndexError, fresh)"
    using set_row_negative_index [OF len, of "0x3C" 8] by simp
  moreover have "set_row (- 9) 0x3C fresh = Inl (IndexError, fresh)"
    using set_row_negative_index [OF len, of "0x3C" "- 9"] by simp
  ultimately show ?thesis using len by simp
qed

section \<open>Pixels and brightness\<close>

lemma or_and_self: "(a OR m) AND m = (m::int)"
  by (rule bit_eqI) (auto simp add: bit_simps)

lemma or_and_not: "(a OR m) AND NOT m = a AND NOT (m::int)"
  by (rule bit_eqI) (auto simp add: bit_simps)

lemma and_not_and_self: "(a AND NOT m) AND m = (0::int)"
  by (rule bit_eqI) (auto simp add: bit_simps)

lemma and_not_and_not: "(a AND NOT m) AND NOT m = a AND NOT (m::int)"
  by (rule bit_eqI) (auto simp add: bit_simps)

lemma aug_assign_closed:
  assumes "length (buf s) = 8" "k < 8" "is_byte (f (buf s ! k) v)"
  shows "aug_assign f (int k) (Inr v) s = Inr (s\<lparr>buf := (buf s)[k := f (buf s ! k) v]\<rparr>)"
proof -
  have "getitem (buf s) (int k) = Inr (buf s ! k)" using assms(1,2) by (simp add: getitem_nth)
  moreover have "setitem (buf s) (int k) (f (buf s ! k) v) = Inr ((buf s)[k := f (buf s ! k) v])"
    using assms setitem_update [of "int k" "buf s"] by simp
  ultimately show ?thesis by (simp add: aug_assign_def raise_in_def)
qed

lemma set_pixel_closed:
  assumes "framebuffer_ok s" "k < 8" "c \<le> 7"
  shows "set_pixel (int k) (int c) s =
         Inr (s\<lparr>buf := (buf s)[k := buf s ! k OR 2 ^ (7 - c)],
               i2c := i2c s @ [(Buf [2 * int k, rotate_right (buf s ! k OR 2 ^ (7 - c))], addr s)]\<rparr>)"
proof -
  have len: "length (buf s) = 8" and bytes: "list_all is_byte (buf s)"
    using assms(1) by (simp_all add: framebuffer_ok_def)
  have m: "py_rshift 0x80 (int c) = Inr (2 ^ (7 - c))"
    using assms(3) by (simp add: py_rshift_def col_mask)
  have "is_byte (buf s ! k)" using len bytes assms(2) by (simp add: list_all_length)
  then have "is_byte (buf s ! k OR 2 ^ (7 - c))" by (simp add: is_byte_or_exp)
  then have "aug_assign (OR) (int k) (py_rshift 0x80 (int c)) s =
      Inr (s\<lparr>buf := (buf s)[k := buf s ! k OR 2 ^ (7 - c)]\<rparr>)"
    unfolding m using len assms(2) by (rule aug_assign_closed [rotated 2])
  moreover have "send_row (int k) (s\<lparr>buf := (buf s)[k := buf s ! k OR 2 ^ (7 - c)]\<rparr>) =
      Inr (s\<lparr>buf := (buf s)[k := buf s ! k OR 2 ^ (7 - c)],
            i2c := i2c s @ [(Buf [2 * int k, rotate_right (buf s ! k OR 2 ^ (7 - c))], addr s)]\<rparr>)"
    using len assms(2) by (simp add: send_row_closed)
  ultimately show ?thesis by (simp add: set_pixel_def then_do_def)
qed

lemma clear_pixel_closed:
  assumes "framebuffer_ok s" "k < 8" "c \<le> 7"
  shows "clear_pixel (int k) (int c) s =
         Inr (s\<lparr>buf := (buf s)[k := buf s ! k AND NOT (2 ^ (7 - c))],
               i2c := i2c s @
                 [(Buf [2 * int k, rotate_right (buf s ! k AND NOT (2 ^ (7 - c)))], addr s)]\<rparr>)"
proof -
  have len: "length (buf s) = 8" and bytes: "list_all is_byte (buf s)"
    using assms(1) by (simp_all add: framebuffer_ok_def)
  have m: "map_sum id NOT (py_rshift 0x80 (int c)) = Inr (NOT (2 ^ (7 - c)))"
    using assms(3) by (simp add: py_rshift_def col_mask)
  have "is_byte (buf s ! k)" using len bytes assms(2) by (simp add: list_all_length)
  then have "is_byte (buf s ! k AND NOT (2 ^ (7 - c)))" by (rule is_byte_and)
  then have "aug_assign (AND) (int k) (map_sum id NOT (py_rshift 0x80 (int c))) s =
      Inr (s\<lparr>buf := (buf s)[k := buf s ! k AND NOT (2 ^ (7 - c))]\<rparr>)"
    unfolding m using len assms(2) by (rule aug_assign_closed [rotated 2])
  moreover have "send_row (int k) (s\<lparr>buf := (buf s)[k := buf s ! k AND NOT (2 ^ (7 - c))]\<rparr>) =
      Inr (s\<lparr>buf := (buf s)[k := buf s ! k AND NOT (2 ^ (7 - c))],
            i2c := i2c s @
              [(Buf [2 * int k, rotate_right (buf s ! k AND NOT (2 ^ (7 - c)))], addr s)]\<rparr>)"
    using len assms(2) by (simp add: send_row_closed)
  ultimately show ?thesis by (simp add: clear_pixel_def then_do_def)
qed

text \<open>
  C7. On an 8-byte framebuffer, for every row \<open>r\<close> and column \<open>c\<close> in 0..7, with
  \<open>m = 0x80 >> c\<close>: after \<open>set_pixel(r, c)\<close> bit \<open>m\<close> of row \<open>r\<close> is set, after
  \<open>clear_pixel(r, c)\<close> it is clear; in both cases the other bits of row \<open>r\<close> and the
  bytes of the other 7 rows are as before.
\<close>

theorem pixel_frame:
  assumes "framebuffer_ok s" "0 \<le> r" "r \<le> 7" "0 \<le> c" "c \<le> 7" "py_rshift 0x80 c = Inr m"
  shows "m \<noteq> 0
       \<and> (\<exists>s'. set_pixel r c s = Inr s' \<and> length (buf s') = 8
              \<and> buf s' ! nat r AND m = m
              \<and> buf s' ! nat r AND NOT m = buf s ! nat r AND NOT m
              \<and> (\<forall>k<8. k \<noteq> nat r \<longrightarrow> buf s' ! k = buf s ! k))
       \<and> (\<exists>s'. clear_pixel r c s = Inr s' \<and> length (buf s') = 8
              \<and> buf s' ! nat r AND m = 0
              \<and> buf s' ! nat r AND NOT m = buf s ! nat r AND NOT m
              \<and> (\<forall>k<8. k \<noteq> nat r \<longrightarrow> buf s' ! k = buf s ! k))"
proof -
  have r: "int (nat r) = r" "nat r < 8" using assms(2,3) by simp_all
  have c: "int (nat c) = c" "nat c \<le> 7" using assms(4,5) by simp_all
  have len: "length (buf s) = 8" using assms(1) by (simp add: framebuffer_ok_def)
  have m: "m = 2 ^ (7 - nat c)"
    using assms(4,6) c(2) by (simp add: py_rshift_def col_mask)
  let ?on = "s\<lparr>buf := (buf s)[nat r := buf s ! nat r OR m],
              i2c := i2c s @ [(Buf [2 * r, rotate_right (buf s ! nat r OR m)], addr s)]\<rparr>"
  let ?off = "s\<lparr>buf := (buf s)[nat r := buf s ! nat r AND NOT m],
               i2c := i2c s @ [(Buf [2 * r, rotate_right (buf s ! nat r AND NOT m)], addr s)]\<rparr>"
  have "set_pixel r c s = Inr ?on"
    using set_pixel_closed [OF assms(1) r(2) c(2)] by (simp only: r(1) c(1) m)
  moreover have "buf ?on ! nat r AND m = m"
    using len r(2) by (simp add: or_and_self)
  moreover have "buf ?on ! nat r AND NOT m = buf s ! nat r AND NOT m"
    using len r(2) by (simp add: or_and_not)
  moreover have "clear_pixel r c s = Inr ?off"
    using clear_pixel_closed [OF assms(1) r(2) c(2)] by (simp only: r(1) c(1) m)
  moreover have "buf ?off ! nat r AND m = 0"
    using len r(2) by (simp add: and_not_and_self)
  moreover have "buf ?off ! nat r AND NOT m = buf s ! nat r AND NOT m"
    using len r(2) by (simp add: and_not_and_not)
  moreover have "m \<noteq> 0" by (simp add: m)
  ultimately show ?thesis using len by simp
qed

theorem pixel_frame_witness:
  "framebuffer_ok fresh \<and> py_rshift 0x80 6 = Inr 2
   \<and> (\<exists>s'. set_pixel 7 6 fresh = Inr s' \<and> buf s' ! 7 AND 2 = 2
          \<and> (\<forall>k<8. k \<noteq> 7 \<longrightarrow> buf s' ! k = buf fresh ! k))
   \<and> (\<exists>s'. clear_pixel 7 6 fresh = Inr s' \<and> buf s' ! 7 AND 2 = 0
          \<and> (\<forall>k<8. k \<noteq> 7 \<longrightarrow> buf s' ! k = buf fresh ! k))"
proof -
  have ok: "framebuffer_ok fresh" by (simp add: framebuffer_ok_def fresh_def is_byte_def)
  have m: "py_rshift 0x80 6 = Inr 2" by (simp add: py_rshift_def drop_bit_eq_div)
  have "(\<exists>s'. set_pixel 7 6 fresh = Inr s' \<and> length (buf s') = 8
              \<and> buf s' ! nat 7 AND 2 = 2
              \<and> buf s' ! nat 7 AND NOT 2 = buf fresh ! nat 7 AND NOT 2
              \<and> (\<forall>k<8. k \<noteq> nat 7 \<longrightarrow> buf s' ! k = buf fresh ! k))
       \<and> (\<exists>s'. clear_pixel 7 6 fresh = Inr s' \<and> length (buf s') = 8
              \<and> buf s' ! nat 7 AND 2 = 0
              \<and> buf s' ! nat 7 AND NOT 2 = buf fresh ! nat 7 AND NOT 2
              \<and> (\<forall>k<8. k \<noteq> nat 7 \<longrightarrow> buf s' ! k = buf fresh ! k))"
    using pixel_frame [OF ok _ _ _ _ m, of 7] by simp
  moreover have "nat 7 = (7::nat)" by simp
  ultimately show ?thesis using ok m by (simp only:) blast
qed

lemma brightness_command:
  assumes "0 \<le> v" "v \<le> 15"
  shows "0xE0 OR v = 0xE0 + (v::int)"
proof -
  have v: "take_bit 4 v = v" using assms by (simp add: take_bit_int_eq_self_iff)
  have e: "(0xE0::int) = push_bit 5 7" by simp
  have "(0xE0::int) AND v = 0"
  proof (rule bit_eqI)
    fix n
    have low: "bit v n \<Longrightarrow> n < 4" by (metis v bit_take_bit_iff)
    have "bit (push_bit 5 (7::int)) n \<Longrightarrow> 5 \<le> n" by (simp only: bit_push_bit_iff)
    then have high: "bit (0xE0::int) n \<Longrightarrow> 5 \<le> n" by (simp only: e)
    have "\<not> (bit (0xE0::int) n \<and> bit v n)"
    proof
      assume "bit (0xE0::int) n \<and> bit v n"
      then have "5 \<le> n" "n < 4" using low high by blast+
      then show False by simp
    qed
    then show "bit (0xE0 AND v) n \<longleftrightarrow> bit (0::int) n"
      by (simp add: bit_and_iff)
  qed
  then show ?thesis by (simp add: disjunctive_add_eq_or)
qed

text \<open>
  C9, as the code has it. \<open>set_brightness(v)\<close> checks no range: for every integer \<open>v\<close> it
  returns after handing the single command \<open>0xE0 | v\<close> to the bus; for \<open>v\<close> in 0..15
  that command is \<open>0xE0 + v\<close>, a byte from \<open>0xE0\<close> to \<open>0xEF\<close>.
\<close>

theorem set_brightness_unchecked:
  "set_brightness v s = Inr (s\<lparr>i2c := i2c s @ [(Num (0xE0 OR v), addr s)]\<rparr>)
   \<and> (0 \<le> v \<and> v \<le> 15 \<longrightarrow> 0xE0 OR v = 0xE0 + v)"
  by (simp add: set_brightness_def send_def brightness_command)

theorem set_brightness_unchecked_witness:
  "(0::int) \<le> 9 \<and> (9::int) \<le> 15 \<and> 0xE0 OR 9 = (0xE9::int)
   \<and> set_brightness 9 fresh = Inr (fresh\<lparr>i2c := [(Num 0xE9, 0x70)]\<rparr>)"
  using set_brightness_unchecked [of 9 fresh] by (simp add: fresh_def)

text \<open>
  The claim C9 as stated fails: \<open>set_brightness(16)\<close> raises nothing and sends \<open>0xF0\<close>.
\<close>

theorem set_brightness_counterexample:
  "set_brightness 16 fresh = Inr (fresh\<lparr>i2c := [(Num 0xF0, 0x70)]\<rparr>)"
  by (simp add: set_brightness_def send_def fresh_def)

section \<open>Full-buffer pushes and the length of the framebuffer\<close>

lemma redrawn_by_send_buf:
  assumes "buf_only s t" "send_buf t = Inr s'"
  shows "redrawn (length (buf s)) s s'"
proof -
  from send_buf_effect [OF assms(2)] obtain d where
    "s' = t\<lparr>i2c := i2c t @ [(Buf d, addr t)]\<rparr>" by blast
  moreover have "t = s\<lparr>buf := buf t\<rparr>" "length (buf t) = length (buf s)"
    using assms(1) by (simp_all add: buf_only_def)
  ultimately have "length (buf t) = length (buf s)
      \<and> s' = s\<lparr>buf := buf t, i2c := i2c s @ [(Buf d, addr s)]\<rparr>"
    by (metis matrix.select_convs(2,5) matrix.surjective matrix.update_convs(3))
  then show ?thesis unfolding redrawn_def by blast
qed

lemma redrawn_by_send_row:
  assumes "buf_only s t" "send_row row t = Inr s'"
  shows "redrawn (length (buf s)) s s'"
proof -
  from send_row_effect [OF assms(2)] obtain d where
    "s' = t\<lparr>i2c := i2c t @ [(Buf d, addr t)]\<rparr>" by blast
  moreover have "t = s\<lparr>buf := buf t\<rparr>" "length (buf t) = length (buf s)"
    using assms(1) by (simp_all add: buf_only_def)
  ultimately have "length (buf t) = length (buf s)
      \<and> s' = s\<lparr>buf := buf t, i2c := i2c s @ [(Buf d, addr s)]\<rparr>"
    by (metis matrix.select_convs(2,5) matrix.surjective matrix.update_convs(3))
  then show ?thesis unfolding redrawn_def by blast
qed


lemma to_bytes_Inr: "to_bytes xs = Inr ys \<Longrightarrow> ys = xs"
  by (simp add: to_bytes_def split: if_splits)

lemma to_bytes_bytes: "list_all is_byte xs \<Longrightarrow> to_bytes xs = Inr xs"
  by (simp add: to_bytes_def list_all_iff is_byte_def)

lemma set_bitmap_effect:
  assumes "set_bitmap bitmap s = Inr s'"
  shows "redrawn (length bitmap) s s'"
proof -
  from assms have run: "send_buf (s\<lparr>buf := bitmap\<rparr>) = Inr s'"
    unfolding set_bitmap_def raise_in_Inr by (auto dest: to_bytes_Inr)
  from send_buf_effect [OF run] obtain d where
    "s' = s\<lparr>buf := bitmap, i2c := i2c s @ [(Buf d, addr s)]\<rparr>" by auto
  then show ?thesis unfolding redrawn_def by blast
qed

lemma clear_effect: "clear s = Inr s' \<Longrightarrow> redrawn (length (buf s)) s s'"
  unfolding clear_def then_do_Inr
  by (auto dest: clear_rows_frame intro: redrawn_by_send_buf)

lemma set_column_effect: "set_column c b s = Inr s' \<Longrightarrow> redrawn (length (buf s)) s s'"
  unfolding set_column_def then_do_Inr
  by (auto dest: priv_set_column_frame intro: redrawn_by_send_buf)

lemma clear_column_effect: "clear_column c s = Inr s' \<Longrightarrow> redrawn (length (buf s)) s s'"
  unfolding clear_column_def then_do_Inr
  by (auto dest: priv_clear_column_frame intro: redrawn_by_send_buf)

lemma set_row_effect:
  assumes "set_row row byte s = Inr s'"
  shows "redrawn (length (buf s)) s s'"
proof -
  from assms obtain bs where
    bs: "setitem (buf s) row byte = Inr bs" "send_row row (s\<lparr>buf := bs\<rparr>) = Inr s'"
    unfolding set_row_def raise_in_Inr by blast
  have "buf_only s (s\<lparr>buf := bs\<rparr>)"
    using bs(1) by (simp add: buf_only_update setitem_length)
  then show ?thesis using bs(2) by (rule redrawn_by_send_row)
qed

lemma set_pixel_effect: "set_pixel r c s = Inr s' \<Longrightarrow> redrawn (length (buf s)) s s'"
  unfolding set_pixel_def then_do_Inr
  by (auto dest: aug_assign_frame intro: redrawn_by_send_row)

lemma clear_pixel_effect: "clear_pixel r c s = Inr s' \<Longrightarrow> redrawn (length (buf s)) s s'"
  unfolding clear_pixel_def then_do_Inr
  by (auto dest: aug_assign_frame intro: redrawn_by_send_row)

lemma redrawn_length: "redrawn n s s' \<Longrightarrow> length (buf s') = n"
  by (auto simp add: redrawn_def)

lemma call_length:
  assumes "call x s = Inr s'"
  shows "length (buf s') = (case x of Set bitmap \<Rightarrow> length bitmap | _ \<Rightarrow> length (buf s))"
proof (cases x)
  case On
  then show ?thesis using assms by (auto simp add: on_def send_def)
next
  case Off
  then show ?thesis using assms by (auto simp add: off_def send_def)
next
  case (SetBrightness v)
  then show ?thesis using assms by (auto simp add: set_brightness_def send_def)
next
  case (SetBlinking m)
  then show ?thesis using assms
    by (auto simp add: set_blinking_def on_def send_def Let_def split: if_splits)
next
  case (Set bitmap)
  then show ?thesis using assms by (auto dest: set_bitmap_effect redrawn_length)
next
  case Clear
  then show ?thesis using assms by (auto dest: clear_effect redrawn_length)
next
  case (SetRow r b)
  then show ?thesis using assms by (auto dest: set_row_effect redrawn_length)
next
  case (ClearRow r)
  then show ?thesis using assms by (auto simp add: clear_row_def dest: set_row_effect redrawn_length)
next
  case (SetColumn c b)
  then show ?thesis using assms by (auto dest: set_column_effect redrawn_length)
next
  case (ClearColumn c)
  then show ?thesis using assms by (auto dest: clear_column_effect redrawn_length)
next
  case (SetPixel r c)
  then show ?thesis using assms by (auto dest: set_pixel_effect redrawn_length)
next
  case (ClearPixel r c)
  then show ?thesis using assms by (auto dest: clear_pixel_effect redrawn_length)
qed

lemma run_length:
  assumes "\<forall>x\<in>set ops. \<forall>bitmap. x = Set bitmap \<longrightarrow> length bitmap = 8"
    "length (buf s) = 8" "run ops s = Inr s'"
  shows "length (buf s') = 8"
  using assms
proof (induction ops arbitrary: s)
  case Nil
  then show ?case by simp
next
  case (Cons x ops)
  from Cons.prems(3) obtain t where t: "call x s = Inr t" "run ops t = Inr s'"
    unfolding run.simps then_do_Inr by blast
  have "length (buf t) = 8"
    using call_length [OF t(1)] Cons.prems(1,2) by (cases x) simp_all
  then show ?case using Cons.IH [OF _ _ t(2)] Cons.prems(1) by simp
qed

lemma clear_rows_closed:
  assumes "\<forall>r\<in>set rows. 0 \<le> r \<and> r < int (length (buf s))"
  shows "\<exists>s'. clear_rows rows s = Inr s' \<and> buf_only s s'
           \<and> (\<forall>k<length (buf s). buf s' ! k = (if int k \<in> set rows then 0 else buf s ! k))"
  using assms
proof (induction rows arbitrary: s)
  case Nil
  then show ?case by (simp add: buf_only_refl)
next
  case (Cons i rest)
  let ?t = "s\<lparr>buf := (buf s)[nat i := 0]\<rparr>"
  have i: "0 \<le> i" "i < int (length (buf s))" using Cons.prems by simp_all
  then have put: "setitem (buf s) i 0 = Inr ((buf s)[nat i := 0])"
    by (simp add: setitem_update is_byte_def)
  have "\<forall>r\<in>set rest. 0 \<le> r \<and> r < int (length (buf ?t))" using Cons.prems by simp
  from Cons.IH [OF this] obtain s' where
    s': "clear_rows rest ?t = Inr s'" "buf_only ?t s'"
      "\<forall>k<length (buf s). buf s' ! k = (if int k \<in> set rest then 0 else buf ?t ! k)"
    by auto
  have frame: "buf_only s s'" using s'(2) by (rule buf_only_via) simp
  have "buf s' ! k = (if int k \<in> set (i # rest) then 0 else buf s ! k)"
    if "k < length (buf s)" for k
  proof (cases "k = nat i")
    case True
    then show ?thesis using s'(3) that i by simp
  next
    case False
    then have "int k \<noteq> i" by auto
    then show ?thesis using s'(3) that False by simp
  qed
  then show ?case using put s'(1) frame by (simp add: raise_in_def)
qed

lemma clear_closed:
  assumes "length (buf s) = 8"
  shows "\<exists>s'. clear s = Inr s' \<and> redrawn 8 s s' \<and> (\<forall>k<8. buf s' ! k = 0)"
proof -
  have "\<forall>r\<in>set range8. 0 \<le> r \<and> r < int (length (buf s))"
    using range8_bounds assms by simp
  from clear_rows_closed [OF this] obtain t where
    t: "clear_rows range8 s = Inr t" "buf_only s t"
      "\<forall>k<length (buf s). buf t ! k = (if int k \<in> set range8 then 0 else buf s ! k)"
    by blast
  have len: "length (buf t) = 8" using t(2) assms by (simp add: buf_only_def)
  then have "length (buf t) \<le> 8" by simp
  from send_buf_payload [OF this] obtain d where
    d: "send_buf t = Inr (t\<lparr>i2c := i2c t @ [(Buf d, addr t)]\<rparr>)" by blast
  let ?s' = "t\<lparr>i2c := i2c t @ [(Buf d, addr t)]\<rparr>"
  have run: "clear s = Inr ?s'" using t(1) d by (simp add: clear_def then_do_def)
  have "redrawn 8 s ?s'" using clear_effect [OF run] assms by simp
  moreover have "\<forall>k<8. buf ?s' ! k = 0" using t(3) assms range8_set by simp
  ultimately show ?thesis using run by blast
qed

lemma init_returns: "\<exists>s0. init a brightness = Inr s0 \<and> length (buf s0) = 8"
proof -
  let ?s1 = "\<lparr>blinking = 0, addr = a, buf = replicate 8 0, is_on = False,
             i2c = [(Num 0x21, a), (Num (0xE0 OR brightness), a)]\<rparr>"
  have "length (buf ?s1) = 8" by simp
  from clear_closed [OF this] obtain s2 where
    s2: "clear ?s1 = Inr s2" "redrawn 8 ?s1 s2" by blast
  have "init a brightness = on s2"
    using s2(1) by (simp add: init_def Let_def then_do_def send_def set_brightness_def)
  moreover have "\<exists>s0. on s2 = Inr s0 \<and> buf s0 = buf s2"
    by (simp add: on_def send_def)
  ultimately show ?thesis using redrawn_length [OF s2(2)] by auto
qed

lemma redrawn_payload:
  assumes "redrawn 8 s s'" "send_buf t = Inr s'"
  shows "\<exists>data. i2c s' = i2c s @ [(Buf data, addr s)] \<and> length data = 16
           \<and> length (buf s') = 8
           \<and> (\<forall>k<8. data ! (2 * k + 1) = rotate_right (buf s' ! k) \<and> data ! (2 * k) = 0)"
proof -
  from assms(1) obtain bs d where
    s': "length bs = 8" "s' = s\<lparr>buf := bs, i2c := i2c s @ [(Buf d, addr s)]\<rparr>"
    unfolding redrawn_def by blast
  have same: "buf t = buf s'" "length (buf t) \<le> 8"
    using send_buf_returns [OF assms(2)] by simp_all
  from send_buf_payload [OF same(2)] obtain data where
    data: "send_buf t = Inr (t\<lparr>i2c := i2c t @ [(Buf data, addr t)]\<rparr>)" "length data = 16"
      "\<forall>k<length (buf t). data ! (2 * k + 1) = rotate_right (buf t ! k)"
      "\<forall>k<8. data ! (2 * k) = 0"
    by blast
  have "s' = t\<lparr>i2c := i2c t @ [(Buf data, addr t)]\<rparr>" using data(1) assms(2) by simp
  then have "last (i2c s') = (Buf data, addr t)" by (metis last_snoc matrix.select_convs(5) matrix.surjective matrix.update_convs(5))
  moreover have "last (i2c s') = (Buf d, addr s)" using s'(2) by simp
  ultimately have "d = data" by simp
  then have "i2c s' = i2c s @ [(Buf data, addr s)]" using s'(2) by simp
  moreover have "length (buf s') = 8" using s' by simp
  ultimately show ?thesis using data(2,3,4) same(1) by simp
qed

lemma full_push_ends_in_send_buf:
  assumes "is_full_push x" "call x s = Inr s'"
  shows "\<exists>t. send_buf t = Inr s'"
proof (cases x)
  case (Set bitmap)
  then show ?thesis using assms(2) by (auto simp add: set_bitmap_def raise_in_Inr)
next
  case Clear
  then show ?thesis using assms(2) by (auto simp add: clear_def then_do_Inr)
next
  case (SetColumn c b)
  then show ?thesis using assms(2) by (auto simp add: set_column_def then_do_Inr)
next
  case (ClearColumn c)
  then show ?thesis using assms(2) by (auto simp add: clear_column_def then_do_Inr)
qed (use assms(1) in simp_all)

text \<open>
  C1, as the code has it. Every full-buffer push (by \<open>set\<close> with an 8-byte bitmap, \<open>clear\<close>,
  \<open>set_column\<close> or \<open>clear_column\<close>, on an 8-byte framebuffer) hands the bus one payload of
  16 bytes that holds \<open>rotate_right(framebuffer[k])\<close> at the odd index \<open>2k + 1\<close>, for
  \<open>k\<close> in 0..7, and 0 at the even indices; the framebuffer is the one the operation leaves.
\<close>

theorem full_push_payload:
  assumes "is_full_push x" "call x s = Inr s'" "length (buf s) = 8"
    "\<forall>bitmap. x = Set bitmap \<longrightarrow> length bitmap = 8"
  shows "\<exists>data. i2c s' = i2c s @ [(Buf data, addr s)] \<and> length data = 16
           \<and> length (buf s') = 8
           \<and> (\<forall>k<8. data ! (2 * k + 1) = rotate_right (buf s' ! k) \<and> data ! (2 * k) = 0)"
proof -
  have "redrawn 8 s s'"
  proof (cases x)
    case (Set bitmap)
    then show ?thesis using assms(2,4) set_bitmap_effect [of bitmap s s'] by simp
  next
    case Clear
    then show ?thesis using assms(2,3) clear_effect [of s s'] by simp
  next
    case (SetColumn c b)
    then show ?thesis using assms(2,3) set_column_effect [of c b s s'] by simp
  next
    case (ClearColumn c)
    then show ?thesis using assms(2,3) clear_column_effect [of c s s'] by simp
  qed (use assms(1) in simp_all)
  moreover obtain t where "send_buf t = Inr s'"
    using full_push_ends_in_send_buf [OF assms(1,2)] by blast
  ultimately show ?thesis by (rule redrawn_payload)
qed

theorem full_push_payload_witness:
  "is_full_push (SetColumn 0 0x81) \<and> length (buf fresh) = 8
   \<and> call (SetColumn 0 0x81) fresh =
       Inr (fresh\<lparr>buf := [0x80, 0, 0, 0, 0, 0, 0, 0x80],
             i2c := [(Buf [0, 0x40, 0, 0, 0, 0, 0, 0, 0, 0, 0, 0, 0, 0, 0, 0x40], 0x70)]\<rparr>)
   \<and> (\<exists>data. [(Buf [0, 0x40, 0, 0, 0, 0, 0, 0, 0, 0, 0, 0, 0, 0, 0, 0x40], 0x70)]
                = [(Buf data, 0x70)]
          \<and> length data = 16
          \<and> (\<forall>k<8. data ! (2 * k + 1) = rotate_right ([0x80, 0, 0, 0, 0, 0, 0, 0x80] ! k)
                \<and> data ! (2 * k) = 0))"
proof -
  let ?s' = "fresh\<lparr>buf := [0x80, 0, 0, 0, 0, 0, 0, 0x80],
             i2c := [(Buf [0, 0x40, 0, 0, 0, 0, 0, 0, 0, 0, 0, 0, 0, 0, 0, 0x40], 0x70)]\<rparr>"
  have push: "is_full_push (SetColumn 0 0x81)" by simp
  have len: "length (buf fresh) = 8" by (simp add: fresh_def)
  have run: "call (SetColumn 0 0x81) fresh = Inr ?s'"
    by (simp add: set_column_def priv_set_column_def priv_clear_column_def py_rshift_def
        py_lshift_def range8_def then_do_def raise_in_def aug_assign_def getitem_def
        setitem_def send_buf_def rotate_right_def send_def fresh_def eval_nat_numeral)
  have "\<exists>data. i2c ?s' = i2c fresh @ [(Buf data, addr fresh)] \<and> length data = 16
          \<and> length (buf ?s') = 8
          \<and> (\<forall>k<8. data ! (2 * k + 1) = rotate_right (buf ?s' ! k) \<and> data ! (2 * k) = 0)"
    using full_push_payload [OF push run len] by simp
  then have "\<exists>data. [(Buf [0, 0x40, 0, 0, 0, 0, 0, 0, 0, 0, 0, 0, 0, 0, 0, 0x40], 0x70)]
                = [(Buf data, 0x70)]
          \<and> length data = 16
          \<and> (\<forall>k<8. data ! (2 * k + 1) = rotate_right ([0x80, 0, 0, 0, 0, 0, 0, 0x80] ! k)
                \<and> data ! (2 * k) = 0)"
    by (simp add: fresh_def)
  then show ?thesis using push len run by blast
qed

text \<open>
  The claim C1 as stated (rotated rows at the even indices, 0 at the odd ones) fails:
  after \<open>set\<close> of a bitmap whose row 0 is \<open>0x01\<close>, index 0 of the payload holds 0, not
  \<open>rotate_right(0x01) = 0x80\<close>, and the odd index 1 holds \<open>0x80\<close>.
\<close>

theorem full_push_payload_counterexample:
  "call (Set [1, 0, 0, 0, 0, 0, 0, 0]) fresh =
     Inr (fresh\<lparr>buf := [1, 0, 0, 0, 0, 0, 0, 0],
           i2c := [(Buf [0, 0x80, 0, 0, 0, 0, 0, 0, 0, 0, 0, 0, 0, 0, 0, 0], 0x70)]\<rparr>)
   \<and> rotate_right ([1, 0, 0, 0, 0, 0, 0, 0] ! (0 div 2)) = 0x80
   \<and> [0, 0x80, 0, 0, 0, 0, 0, 0, 0, 0, 0, 0, 0, 0, 0, 0::int] ! 0 \<noteq> 0x80
   \<and> [0, 0x80, 0, 0, 0, 0, 0, 0, 0, 0, 0, 0, 0, 0, 0, 0::int] ! 1 \<noteq> 0"
  by (simp add: set_bitmap_def to_bytes_def raise_in_def send_buf_def setitem_def
      rotate_right_def send_def fresh_def eval_nat_numeral)

text \<open>
  C2, as the code has it. \<open>set(bitmap)\<close> checks no length. For a bitmap of at most 8 bytes
  (of exactly 8 in particular) it replaces the framebuffer with the bitmap and performs a
  full-buffer push: row \<open>k\<close> of the bitmap rotated at index \<open>2k + 1\<close>, 0 elsewhere. For a
  bitmap of more than 8 bytes the framebuffer is replaced all the same, the push loop
  raises IndexError and nothing is sent.
\<close>

theorem set_bitmap_lengths:
  assumes "list_all is_byte bitmap"
  shows "(length bitmap \<le> 8 \<longrightarrow>
            (\<exists>data. set_bitmap bitmap s =
                      Inr (s\<lparr>buf := bitmap, i2c := i2c s @ [(Buf data, addr s)]\<rparr>)
                \<and> length data = 16
                \<and> (\<forall>k<length bitmap. data ! (2 * k + 1) = rotate_right (bitmap ! k))
                \<and> (\<forall>k<8. data ! (2 * k) = 0)
                \<and> (\<forall>k<8. length bitmap \<le> k \<longrightarrow> data ! (2 * k + 1) = 0)))
       \<and> (8 < length bitmap \<longrightarrow> set_bitmap bitmap s = Inl (IndexError, s\<lparr>buf := bitmap\<rparr>))"
proof (intro conjI impI)
  let ?t = "s\<lparr>buf := bitmap\<rparr>"
  have unfold: "set_bitmap bitmap s = send_buf ?t"
    using assms by (simp add: set_bitmap_def raise_in_def to_bytes_bytes)
  {
    assume "length bitmap \<le> 8"
    then have "length (buf ?t) \<le> 8" by simp
    from send_buf_payload [OF this]
    show "\<exists>data. set_bitmap bitmap s =
                      Inr (s\<lparr>buf := bitmap, i2c := i2c s @ [(Buf data, addr s)]\<rparr>)
                \<and> length data = 16
                \<and> (\<forall>k<length bitmap. data ! (2 * k + 1) = rotate_right (bitmap ! k))
                \<and> (\<forall>k<8. data ! (2 * k) = 0)
                \<and> (\<forall>k<8. length bitmap \<le> k \<longrightarrow> data ! (2 * k + 1) = 0)"
      unfolding unfold by simp
  }
  {
    assume "8 < length bitmap"
    then have "8 < length (buf ?t)" by simp
    from send_buf_overrun [OF this]
    show "set_bitmap bitmap s = Inl (IndexError, s\<lparr>buf := bitmap\<rparr>)"
      unfolding unfold .
  }
qed

theorem set_bitmap_lengths_witness:
  "list_all is_byte [0xFF, 0x81, 0x81, 0x81, 0x81, 0x81, 0x81, 0xFF]
   \<and> (\<exists>data. set_bitmap [0xFF, 0x81, 0x81, 0x81, 0x81, 0x81, 0x81, 0xFF] fresh =
               Inr (fresh\<lparr>buf := [0xFF, 0x81, 0x81, 0x81, 0x81, 0x81, 0x81, 0xFF],
                     i2c := [(Buf data, 0x70)]\<rparr>)
          \<and> length data = 16 \<and> data ! 1 = 0xFF \<and> data ! 3 = 0xC0 \<and> data ! 0 = 0)"
proof -
  let ?bm = "[0xFF, 0x81, 0x81, 0x81, 0x81, 0x81, 0x81, 0xFF] :: int list"
  have bytes: "list_all is_byte ?bm" by (simp add: is_byte_def)
  have "length ?bm \<le> 8" by simp
  with set_bitmap_lengths [OF bytes, of fresh] obtain data where
    d: "set_bitmap ?bm fresh = Inr (fresh\<lparr>buf := ?bm, i2c := i2c fresh @ [(Buf data, addr fresh)]\<rparr>)"
      "length data = 16"
      "\<forall>k<length ?bm. data ! (2 * k + 1) = rotate_right (?bm ! k)"
      "\<forall>k<8. data ! (2 * k) = 0"
    by blast
  have "data ! (2 * 0 + 1) = rotate_right (?bm ! 0)" using spec [OF d(3), of 0] by simp
  then have one: "data ! 1 = 0xFF" by (simp add: rotate_right_def)
  have "data ! (2 * 1 + 1) = rotate_right (?bm ! 1)" using spec [OF d(3), of 1] by simp
  then have three: "data ! 3 = 0xC0" by (simp add: rotate_right_def)
  have "data ! (2 * 0) = 0" using spec [OF d(4), of 0] by simp
  then have zero: "data ! 0 = 0" by simp
  have "set_bitmap ?bm fresh = Inr (fresh\<lparr>buf := ?bm, i2c := [(Buf data, 0x70)]\<rparr>)"
    using d(1) by (simp add: fresh_def)
  then show ?thesis using bytes d(2) one three zero by blast
qed

text \<open>
  The claim C2 as stated fails: a bitmap of 3 bytes raises no length error, becomes the
  framebuffer and is pushed.
\<close>

theorem set_bitmap_short_counterexample:
  "length [1, 2, 3 :: int] \<noteq> 8
   \<and> set_bitmap [1, 2, 3] fresh =
       Inr (fresh\<lparr>buf := [1, 2, 3],
             i2c := [(Buf [0, 0x80, 0, 0x01, 0, 0x81, 0, 0, 0, 0, 0, 0, 0, 0, 0, 0], 0x70)]\<rparr>)"
  by (simp add: set_bitmap_def to_bytes_def raise_in_def send_buf_def setitem_def
      rotate_right_def send_def fresh_def eval_nat_numeral)

text \<open>
  C3, as the code has it. The constructor returns with a framebuffer of 8 items. An
  operation that returns leaves the length of the framebuffer as it was, except
  \<open>set(bitmap)\<close>, which leaves a framebuffer of \<open>len(bitmap)\<close> items. So along any run of
  operations in which every bitmap given to \<open>set\<close> has 8 items, a framebuffer of 8 items
  stays one of 8 items.
\<close>

theorem framebuffer_length:
  "(\<exists>s0. init a brightness = Inr s0 \<and> length (buf s0) = 8)
   \<and> (call x s = Inr s' \<longrightarrow>
         length (buf s') = (case x of Set bitmap \<Rightarrow> length bitmap | _ \<Rightarrow> length (buf s)))
   \<and> ((\<forall>y\<in>set ops. \<forall>bitmap. y = Set bitmap \<longrightarrow> length bitmap = 8)
        \<and> length (buf s) = 8 \<and> run ops s = Inr s'' \<longrightarrow> length (buf s'') = 8)"
proof (intro conjI impI)
  show "\<exists>s0. init a brightness = Inr s0 \<and> length (buf s0) = 8" by (rule init_returns)
next
  assume "call x s = Inr s'"
  then show "length (buf s') = (case x of Set bitmap \<Rightarrow> length bitmap | _ \<Rightarrow> length (buf s))"
    by (rule call_length)
next
  assume "(\<forall>y\<in>set ops. \<forall>bitmap. y = Set bitmap \<longrightarrow> length bitmap = 8)
        \<and> length (buf s) = 8 \<and> run ops s = Inr s''"
  then show "length (buf s'') = 8" using run_length [of ops s s''] by blast
qed

theorem framebuffer_length_witness:
  "run [SetPixel 7 6, Set [1, 2, 3, 4, 5, 6, 7, 8], ClearRow 0] fresh =
     Inr (fresh\<lparr>buf := [0, 2, 3, 4, 5, 6, 7, 8],
           i2c := [(Buf [0x0E, 0x01], 0x70),
                   (Buf [0, 0x80, 0, 0x01, 0, 0x81, 0, 0x02, 0, 0x82, 0, 0x03, 0, 0x83, 0, 0x04],
                    0x70),
                   (Buf [0x00, 0x00], 0x70)]\<rparr>)
   \<and> length (buf (fresh\<lparr>buf := [0, 2, 3, 4, 5, 6, 7, 8 :: int]\<rparr>)) = 8"
proof -
  let ?ops = "[SetPixel 7 6, Set [1, 2, 3, 4, 5, 6, 7, 8], ClearRow 0]"
  let ?s' = "fresh\<lparr>buf := [0, 2, 3, 4, 5, 6, 7, 8],
           i2c := [(Buf [0x0E, 0x01], 0x70),
                   (Buf [0, 0x80, 0, 0x01, 0, 0x81, 0, 0x02, 0, 0x82, 0, 0x03, 0, 0x83, 0, 0x04],
                    0x70),
                   (Buf [0x00, 0x00], 0x70)]\<rparr>"
  have run: "run ?ops fresh = Inr ?s'"
    by (simp add: then_do_def raise_in_def set_pixel_def aug_assign_def py_rshift_def
        getitem_def setitem_def send_row_def row_addr_def to_bytes_def set_bitmap_def
        send_buf_def clear_row_def set_row_def rotate_right_def send_def fresh_def
        eval_nat_numeral)
  have ok: "\<forall>y\<in>set ?ops. \<forall>bitmap. y = Set bitmap \<longrightarrow> length bitmap = 8" by simp
  have len: "length (buf fresh) = 8" by (simp add: fresh_def)
  have "(\<forall>y\<in>set ?ops. \<forall>bitmap. y = Set bitmap \<longrightarrow> length bitmap = 8)
        \<and> length (buf fresh) = 8 \<and> run ?ops fresh = Inr ?s' \<longrightarrow> length (buf ?s') = 8"
    using framebuffer_length [of 0 0 On fresh fresh ?ops ?s'] by (elim conjE)
  then have "length (buf ?s') = 8" using ok len run by (simp only:)
  then show ?thesis using run by simp
qed

text \<open>
  The claim C3 as stated fails: \<open>set\<close> of a one-byte bitmap returns and leaves a
  framebuffer of one item.
\<close>

theorem framebuffer_length_counterexample:
  "length (buf fresh) = 8
   \<and> call (Set [0xFF]) fresh =
       Inr (fresh\<lparr>buf := [0xFF],
             i2c := [(Buf [0, 0xFF, 0, 0, 0, 0, 0, 0, 0, 0, 0, 0, 0, 0, 0, 0], 0x70)]\<rparr>)
   \<and> length (buf (fresh\<lparr>buf := [0xFF],
             i2c := [(Buf [0, 0xFF, 0, 0, 0, 0, 0, 0, 0, 0, 0, 0, 0, 0, 0, 0], 0x70)]\<rparr>)) \<noteq> 8"
  by (simp add: set_bitmap_def to_bytes_def raise_in_def send_buf_def setitem_def
      rotate_right_def send_def fresh_def eval_nat_numeral)

section \<open>Blinking\<close>

lemma redrawn_quiet:
  assumes "redrawn n s t"
  shows "blinking t = blinking s \<and> addr t = addr s \<and> (\<exists>d. i2c t = i2c s @ [(Buf d, addr s)])"
  using assms by (auto simp add: redrawn_def)

lemma on_command_distinct:
  assumes "mode \<in> {0, 1, 2, 3}"
  shows "Num (0x81 OR push_bit 1 mode) \<noteq> Num 0x80"
    and "Num (0x81 OR push_bit 1 mode) \<noteq> Num (0xE0 OR v)"
    and "Num (0x81 OR push_bit 1 mode) \<noteq> Buf d"
proof -
  have cmd: "(0x81 OR push_bit 1 mode) \<in> {0x81, 0x83, 0x85, 0x87 :: int}"
    using assms by auto
  then show "Num (0x81 OR push_bit 1 mode) \<noteq> Num 0x80" by auto
  have "bit (0xE0 OR v) 5" by (simp add: bit_or_iff)
  moreover have "\<not> bit (0x81 OR push_bit 1 mode) 5" using cmd by auto
  ultimately have "0x81 OR push_bit 1 mode \<noteq> 0xE0 OR v" by auto
  then show "Num (0x81 OR push_bit 1 mode) \<noteq> Num (0xE0 OR v)" by simp
  show "Num (0x81 OR push_bit 1 mode) \<noteq> Buf d" by simp
qed

lemma quiet_call:
  assumes "\<not> on_or_blink x" "call x s = Inr t" "mode \<in> {0, 1, 2, 3}"
  shows "blinking t = blinking s \<and> addr t = addr s
         \<and> (\<exists>e. i2c t = i2c s @ [e] \<and> fst e \<noteq> Num (0x81 OR push_bit 1 mode))"
proof -
  note distinct = on_command_distinct [OF assms(3), symmetric]
  have drawn: ?thesis if "redrawn n s t" for n
    using redrawn_quiet [OF that] distinct(3) by auto
  show ?thesis
  proof (cases x)
    case On
    then show ?thesis using assms(1) by simp
  next
    case Off
    then show ?thesis using assms(2) distinct(1) by (auto simp add: off_def send_def)
  next
    case (SetBrightness v)
    then show ?thesis using assms(2) distinct(2) by (auto simp add: set_brightness_def send_def)
  next
    case (SetBlinking m)
    then show ?thesis using assms(1) by simp
  next
    case (Set bitmap)
    then have "\<exists>n. redrawn n s t" using assms(2) set_bitmap_effect [of _ s t] by auto
    then show ?thesis using drawn by blast
  next
    case Clear
    then have "\<exists>n. redrawn n s t" using assms(2) clear_effect [of s t] by auto
    then show ?thesis using drawn by blast
  next
    case (SetRow r b)
    then have "\<exists>n. redrawn n s t" using assms(2) set_row_effect [of _ _ s t] by auto
    then show ?thesis using drawn by blast
  next
    case (ClearRow r)
    then have "\<exists>n. redrawn n s t" using assms(2) set_row_effect [of _ 0 s t] by (auto simp add: clear_row_def)
    then show ?thesis using drawn by blast
  next
    case (SetColumn c b)
    then have "\<exists>n. redrawn n s t" using assms(2) set_column_effect [of _ _ s t] by auto
    then show ?thesis using drawn by blast
  next
    case (ClearColumn c)
    then have "\<exists>n. redrawn n s t" using assms(2) clear_column_effect [of _ s t] by auto
    then show ?thesis using drawn by blast
  next
    case (SetPixel r c)
    then have "\<exists>n. redrawn n s t" using assms(2) set_pixel_effect [of _ _ s t] by auto
    then show ?thesis using drawn by blast
  next
    case (ClearPixel r c)
    then have "\<exists>n. redrawn n s t" using assms(2) clear_pixel_effect [of _ _ s t] by auto
    then show ?thesis using drawn by blast
  qed
qed

lemma quiet_run:
  assumes "\<forall>x\<in>set ops. \<not> on_or_blink x" "run ops s = Inr t" "mode \<in> {0, 1, 2, 3}"
  shows "blinking t = blinking s \<and> addr t = addr s
         \<and> (\<exists>sent. i2c t = i2c s @ sent
               \<and> (\<forall>e\<in>set sent. fst e \<noteq> Num (0x81 OR push_bit 1 mode)))"
  using assms(1,2)
proof (induction ops arbitrary: s)
  case Nil
  then show ?case by simp
next
  case (Cons x ops)
  from Cons.prems(2) obtain m where m: "call x s = Inr m" "run ops m = Inr t"
    unfolding run.simps then_do_Inr by blast
  have "\<not> on_or_blink x" using Cons.prems(1) by simp
  from quiet_call [OF this m(1) assms(3)] obtain e where
    e: "blinking m = blinking s" "addr m = addr s" "i2c m = i2c s @ [e]"
      "fst e \<noteq> Num (0x81 OR push_bit 1 mode)"
    by blast
  have "\<forall>x\<in>set ops. \<not> on_or_blink x" using Cons.prems(1) by simp
  from Cons.IH [OF this m(2)] obtain sent where
    sent: "blinking t = blinking m" "addr t = addr m" "i2c t = i2c m @ sent"
      "\<forall>e\<in>set sent. fst e \<noteq> Num (0x81 OR push_bit 1 mode)"
    by blast
  have "i2c t = i2c s @ (e # sent)" using e(3) sent(3) by simp
  moreover have "\<forall>e'\<in>set (e # sent). fst e' \<noteq> Num (0x81 OR push_bit 1 mode)"
    using e(4) sent(4) by simp
  ultimately show ?case using e(1,2) sent(1,2) by metis
qed

text \<open>
  C8. For every mode in 0..3: while the display is on, \<open>set_blinking(mode)\<close> makes exactly
  one call of the bus, with the command \<open>0x81 | mode << 1\<close>. While it is off,
  \<open>set_blinking(mode)\<close> makes no call; whatever operations other than \<open>on\<close> and
  \<open>set_blinking\<close> run after it, none of them sends that command, and the next \<open>on()\<close>
  sends it.
\<close>

theorem set_blinking_transport:
  assumes "mode \<in> {0, 1, 2, 3}"
  shows "(is_on s \<longrightarrow>
            (\<exists>s'. set_blinking mode s = Inr s'
                \<and> i2c s' = i2c s @ [(Num (0x81 OR push_bit 1 mode), addr s)]))
       \<and> (\<not> is_on s \<longrightarrow>
            (\<exists>s'. set_blinking mode s = Inr s' \<and> i2c s' = i2c s
                \<and> (\<forall>ops t. (\<forall>x\<in>set ops. \<not> on_or_blink x) \<and> run ops s' = Inr t \<longrightarrow>
                      (\<exists>sent u. i2c t = i2c s @ sent
                          \<and> (\<forall>e\<in>set sent. fst e \<noteq> Num (0x81 OR push_bit 1 mode))
                          \<and> on t = Inr u
                          \<and> i2c u = i2c t @ [(Num (0x81 OR push_bit 1 mode), addr s)]))))"
proof (intro conjI impI)
  assume "is_on s"
  then show "\<exists>s'. set_blinking mode s = Inr s'
      \<and> i2c s' = i2c s @ [(Num (0x81 OR push_bit 1 mode), addr s)]"
    by (simp add: set_blinking_def on_def send_def)
next
  assume off: "\<not> is_on s"
  let ?s' = "s\<lparr>blinking := mode\<rparr>"
  have set: "set_blinking mode s = Inr ?s'" using off by (simp add: set_blinking_def)
  have later: "\<exists>sent u. i2c t = i2c s @ sent
        \<and> (\<forall>e\<in>set sent. fst e \<noteq> Num (0x81 OR push_bit 1 mode))
        \<and> on t = Inr u
        \<and> i2c u = i2c t @ [(Num (0x81 OR push_bit 1 mode), addr s)]"
    if "(\<forall>x\<in>set ops. \<not> on_or_blink x) \<and> run ops ?s' = Inr t" for ops t
  proof -
    from that have quiet: "\<forall>x\<in>set ops. \<not> on_or_blink x" and run: "run ops ?s' = Inr t"
      by simp_all
    from quiet_run [OF quiet run assms] obtain sent where
      sent: "blinking t = mode" "addr t = addr s" "i2c t = i2c s @ sent"
        "\<forall>e\<in>set sent. fst e \<noteq> Num (0x81 OR push_bit 1 mode)"
      by auto
    have "\<exists>u. on t = Inr u \<and> i2c u = i2c t @ [(Num (0x81 OR push_bit 1 mode), addr s)]"
      using sent(1,2) by (simp add: on_def send_def)
    then show ?thesis using sent(3,4) by blast
  qed
  show "\<exists>s'. set_blinking mode s = Inr s' \<and> i2c s' = i2c s
        \<and> (\<forall>ops t. (\<forall>x\<in>set ops. \<not> on_or_blink x) \<and> run ops s' = Inr t \<longrightarrow>
              (\<exists>sent u. i2c t = i2c s @ sent
                  \<and> (\<forall>e\<in>set sent. fst e \<noteq> Num (0x81 OR push_bit 1 mode))
                  \<and> on t = Inr u
                  \<and> i2c u = i2c t @ [(Num (0x81 OR push_bit 1 mode), addr s)]))"
    using set later by (intro exI [of _ ?s']) simp
qed


theorem set_blinking_transport_witness:
  "(2::int) \<in> {0, 1, 2, 3} \<and> is_on fresh
   \<and> (\<exists>s'. set_blinking 2 fresh = Inr s' \<and> i2c s' = [(Num 0x85, 0x70)])
   \<and> \<not> is_on (fresh\<lparr>is_on := False\<rparr>)
   \<and> \<not> on_or_blink (SetBrightness 3) \<and> \<not> on_or_blink Off
   \<and> (\<exists>s'. set_blinking 2 (fresh\<lparr>is_on := False\<rparr>) = Inr s' \<and> i2c s' = []
          \<and> (\<exists>t sent u. run [SetBrightness 3, Off] s' = Inr t \<and> i2c t = sent
                 \<and> Num 0x85 \<notin> fst ` set sent
                 \<and> on t = Inr u \<and> i2c u = i2c t @ [(Num 0x85, 0x70)]))"
proof -
  have mode: "(2::int) \<in> {0, 1, 2, 3}" by simp
  have cmd: "0x81 OR push_bit 1 (2::int) = 0x85" by simp
  have on: "is_on fresh" and off: "\<not> is_on (fresh\<lparr>is_on := False\<rparr>)"
    by (simp_all add: fresh_def)
  have quiet: "\<forall>x\<in>set [SetBrightness 3, Off]. \<not> on_or_blink x" by simp
  from set_blinking_transport [OF mode, of fresh] on
  have first: "\<exists>s'. set_blinking 2 fresh = Inr s' \<and> i2c s' = [(Num 0x85, 0x70)]"
    unfolding cmd by (simp add: fresh_def)
  from set_blinking_transport [OF mode, of "fresh\<lparr>is_on := False\<rparr>"] off
  obtain s' where
    s': "set_blinking 2 (fresh\<lparr>is_on := False\<rparr>) = Inr s'"
      "i2c s' = i2c (fresh\<lparr>is_on := False\<rparr>)"
      "\<forall>ops t. (\<forall>x\<in>set ops. \<not> on_or_blink x) \<and> run ops s' = Inr t \<longrightarrow>
          (\<exists>sent u. i2c t = i2c (fresh\<lparr>is_on := False\<rparr>) @ sent
              \<and> (\<forall>e\<in>set sent. fst e \<noteq> Num 0x85)
              \<and> on t = Inr u
              \<and> i2c u = i2c t @ [(Num 0x85, addr (fresh\<lparr>is_on := False\<rparr>))])"
    unfolding cmd by blast
  have s'_eq: "s' = fresh\<lparr>blinking := 2, is_on := False\<rparr>"
    using s'(1) by (simp add: set_blinking_def fresh_def)
  have "\<exists>t. run [SetBrightness 3, Off] s' = Inr t"
    unfolding s'_eq by (simp add: then_do_def set_brightness_def off_def send_def)
  then obtain t where t: "run [SetBrightness 3, Off] s' = Inr t" by blast
  with s'(3) quiet obtain sent u where
    "i2c t = i2c (fresh\<lparr>is_on := False\<rparr>) @ sent" "\<forall>e\<in>set sent. fst e \<noteq> Num 0x85"
    "on t = Inr u" "i2c u = i2c t @ [(Num 0x85, addr (fresh\<lparr>is_on := False\<rparr>))]"
    by blast
  then have "i2c t = sent \<and> Num 0x85 \<notin> fst ` set sent
      \<and> on t = Inr u \<and> i2c u = i2c t @ [(Num 0x85, 0x70)]"
    by (auto simp add: fresh_def)
  then have "\<exists>t sent u. run [SetBrightness 3, Off] s' = Inr t \<and> i2c t = sent
      \<and> Num 0x85 \<notin> fst ` set sent \<and> on t = Inr u \<and> i2c u = i2c t @ [(Num 0x85, 0x70)]"
    using t by blast
  moreover have "i2c s' = []" using s'(2) by (simp add: fresh_def)
  ultimately show ?thesis using mode on off first s'(1) by auto
qed

end
